theory Spec2Isabelle
  imports Complex_Main "HOL-Library.Multiset" "HOL-Library.Log_Nat"
begin

section \<open>Strings\<close>

text \<open>
  JavaScript strings are modelled as \<^typ>\<open>string\<close>. Only three string operations of the
  source matter: \<^verbatim>\<open>String.prototype.includes\<close>, \<^verbatim>\<open>toLowerCase\<close> (applied to the
  ASCII names of the two name tables) and the decimal rendering of a non-negative
  integer inside a template literal.
\<close>

fun starts_with :: "string \<Rightarrow> string \<Rightarrow> bool" where
  "starts_with s [] = True"
| "starts_with [] (p # ps) = False"
| "starts_with (c # cs) (p # ps) = (c = p \<and> starts_with cs ps)"

fun str_includes :: "string \<Rightarrow> string \<Rightarrow> bool" where
  "str_includes [] pat = starts_with [] pat"
| "str_includes (c # cs) pat = (starts_with (c # cs) pat \<or> str_includes cs pat)"

definition lower_char :: "char \<Rightarrow> char" where
  "lower_char c =
     (if 65 \<le> (of_char c :: nat) \<and> (of_char c :: nat) \<le> 90
      then char_of ((of_char c :: nat) + 32) else c)"

definition toLowerCase :: "string \<Rightarrow> string" where
  "toLowerCase s = map lower_char s"

definition digit_char :: "nat \<Rightarrow> char" where
  "digit_char d = char_of (48 + d)"

definition is_digit :: "char \<Rightarrow> bool" where
  "is_digit c = (48 \<le> (of_char c :: nat) \<and> (of_char c :: nat) \<le> 57)"

text \<open>The text of a non-negative integer in a template literal, \<^verbatim>\<open>`${n}`\<close>.\<close>

fun toString_nat :: "nat \<Rightarrow> string" where
  "toString_nat n =
     (if n < 10 then [digit_char n]
      else toString_nat (n div 10) @ [digit_char (n mod 10)])"

declare toString_nat.simps [simp del]

section \<open>The synthetic record generator (utils.ts)\<close>

record user_metadata =
  first_name :: string
  last_name :: string
  email_verified :: bool

record UserData =
  email :: string
  password :: string
  metadata :: user_metadata

definition firstNames :: "string list" where
  "firstNames =
    [''John'', ''Jane'', ''Michael'', ''Sarah'', ''David'', ''Emily'', ''James'', ''Jessica'', ''Robert'', ''Ashley'',
     ''William'', ''Amanda'', ''Richard'', ''Jennifer'', ''Charles'', ''Michelle'', ''Thomas'', ''Kimberly'', ''Christopher'', ''Donna'',
     ''Daniel'', ''Lisa'', ''Matthew'', ''Nancy'', ''Anthony'', ''Karen'', ''Mark'', ''Betty'', ''Donald'', ''Helen'',
     ''Steven'', ''Sandra'', ''Paul'', ''Donna'', ''Andrew'', ''Carol'', ''Joshua'', ''Ruth'', ''Kenneth'', ''Sharon'',
     ''Kevin'', ''Michelle'', ''Brian'', ''Laura'', ''George'', ''Sarah'', ''Edward'', ''Kimberly'', ''Ronald'', ''Deborah'',
     ''Timothy'', ''Dorothy'', ''Jason'', ''Lisa'', ''Jeffrey'', ''Nancy'', ''Ryan'', ''Karen'', ''Jacob'', ''Betty'',
     ''Gary'', ''Helen'', ''Nicholas'', ''Sandra'', ''Eric'', ''Donna'', ''Jonathan'', ''Carol'', ''Stephen'', ''Ruth'',
     ''Larry'', ''Sharon'', ''Justin'', ''Michelle'', ''Scott'', ''Laura'', ''Brandon'', ''Sarah'', ''Benjamin'', ''Kimberly'',
     ''Samuel'', ''Deborah'', ''Gregory'', ''Dorothy'', ''Alexander'', ''Lisa'', ''Patrick'', ''Nancy'', ''Jack'', ''Karen'']"

definition lastNames :: "string list" where
  "lastNames =
    [''Smith'', ''Johnson'', ''Williams'', ''Brown'', ''Jones'', ''Garcia'', ''Miller'', ''Davis'', ''Rodriguez'', ''Martinez'',
     ''Hernandez'', ''Lopez'', ''Gonzalez'', ''Wilson'', ''Anderson'', ''Thomas'', ''Taylor'', ''Moore'', ''Jackson'', ''Martin'',
     ''Lee'', ''Perez'', ''Thompson'', ''White'', ''Harris'', ''Sanchez'', ''Clark'', ''Ramirez'', ''Lewis'', ''Robinson'',
     ''Walker'', ''Young'', ''Allen'', ''King'', ''Wright'', ''Scott'', ''Torres'', ''Nguyen'', ''Hill'', ''Flores'',
     ''Green'', ''Adams'', ''Nelson'', ''Baker'', ''Hall'', ''Rivera'', ''Campbell'', ''Mitchell'', ''Carter'', ''Roberts'',
     ''Gomez'', ''Phillips'', ''Evans'', ''Turner'', ''Diaz'', ''Parker'', ''Cruz'', ''Edwards'', ''Collins'', ''Reyes'',
     ''Stewart'', ''Morris'', ''Morales'', ''Murphy'', ''Cook'', ''Rogers'', ''Gutierrez'', ''Ortiz'', ''Morgan'', ''Cooper'',
     ''Peterson'', ''Bailey'', ''Reed'', ''Kelly'', ''Howard'', ''Ramos'', ''Kim'', ''Cox'', ''Ward'', ''Richardson'',
     ''Watson'', ''Brooks'', ''Chavez'', ''Wood'', ''James'', ''Bennett'', ''Gray'', ''Mendoza'', ''Ruiz'', ''Hughes'']"

text \<open>
  \<^verbatim>\<open>generateUserBatch\<close> reads the clock once (\<^verbatim>\<open>Date.now()\<close>, here \<open>timestamp\<close>) and draws
  two table indices per record. \<^verbatim>\<open>Math.random()\<close> lies in \<open>[0, 1)\<close>, so
  \<^verbatim>\<open>Math.floor(Math.random() * table.length)\<close> is an index below the table's length: the
  draws are given as natural numbers and reduced modulo the length. The loop
  \<^verbatim>\<open>for (let i = 0; i < batchSize; i++)\<close> visits \<open>0, ..., batchSize - 1\<close> and is empty for
  a batch size that is not positive.
\<close>

definition uniqueId :: "nat \<Rightarrow> nat \<Rightarrow> string" where
  "uniqueId timestamp i = toString_nat timestamp @ ''-'' @ toString_nat i"

definition make_user ::
  "nat \<Rightarrow> (nat \<Rightarrow> nat) \<Rightarrow> (nat \<Rightarrow> nat) \<Rightarrow> string \<Rightarrow> string \<Rightarrow> nat \<Rightarrow> UserData" where
  "make_user timestamp pick_first pick_last emailDomain defaultPassword i =
     (let firstName = firstNames ! (pick_first i mod length firstNames);
          lastName = lastNames ! (pick_last i mod length lastNames)
      in \<lparr>email = toLowerCase firstName @ ''.'' @ toLowerCase lastName @ ''.'' @
                  uniqueId timestamp i @ ''@'' @ emailDomain,
          password = defaultPassword,
          metadata = \<lparr>first_name = firstName, last_name = lastName, email_verified = True\<rparr>\<rparr>)"

definition generateUserBatch ::
  "nat \<Rightarrow> (nat \<Rightarrow> nat) \<Rightarrow> (nat \<Rightarrow> nat) \<Rightarrow> int \<Rightarrow> string \<Rightarrow> string \<Rightarrow> UserData list" where
  "generateUserBatch timestamp pick_first pick_last batchSize emailDomain defaultPassword =
     map (make_user timestamp pick_first pick_last emailDomain defaultPassword)
       [0 ..< nat batchSize]"

section \<open>Configuration (config.ts)\<close>

text \<open>
  The three numeric settings are results of \<^verbatim>\<open>parseInt\<close>; they are modelled as integers
  (a setting that does not parse, \<^verbatim>\<open>NaN\<close>, is outside the model). A missing
  credential is the empty string, as \<^verbatim>\<open>process.env.X || ''\<close> makes it.
\<close>

record Config =
  supabase_url :: string
  supabase_serviceRoleKey :: string
  seeding_totalUsers :: int
  seeding_batchSize :: int
  seeding_concurrentBatches :: int
  seeding_defaultPassword :: string
  seeding_emailDomain :: string

text \<open>
  A thrown value is either an instance of \<^verbatim>\<open>Error\<close>, which carries a message, or any
  other value, kept as the text \<^verbatim>\<open>String(error)\<close>; the source tests
  \<^verbatim>\<open>error instanceof Error\<close> before it reads the message.
\<close>

datatype js_error = JsError string | NonError string

definition validateConfig :: "Config \<Rightarrow> js_error + unit" where
  "validateConfig cfg =
     (if supabase_url cfg = [] then Inl (JsError ''SUPABASE_URL is required'')
      else if supabase_serviceRoleKey cfg = [] then
        Inl (JsError ''SUPABASE_SERVICE_ROLE_KEY is required'')
      else Inr ())"

section \<open>The environment of a run\<close>

text \<open>
  Everything a run reads from outside is collected in one record of oracles, indexed by
  the position at which the program consults it: the clock read by the generator of batch
  \<open>k\<close>, the two name draws for record \<open>i\<close> of batch \<open>k\<close>, whether the generator of batch
  \<open>k\<close> throws (and what), and the answer of the remote \<^verbatim>\<open>auth.admin.createUser\<close> to
  attempt \<open>a\<close> for record \<open>i\<close> of batch \<open>k\<close>: \<open>None\<close> when the account was created,
  \<open>Some e\<close> when the call returned or threw the error \<open>e\<close>.
\<close>

record world =
  Date_now :: "int \<Rightarrow> nat"
  random_first :: "int \<Rightarrow> nat \<Rightarrow> nat"
  random_last :: "int \<Rightarrow> nat \<Rightarrow> nat"
  generator_throws :: "int \<Rightarrow> js_error option"
  admin_createUser :: "int \<Rightarrow> nat \<Rightarrow> nat \<Rightarrow> UserData \<Rightarrow> js_error option"

text \<open>
  The call of \<^verbatim>\<open>generateUserBatch\<close> inside the \<^verbatim>\<open>try\<close> block of a batch. It is the
  one statement of the block taken to be able to throw; an exception can only come from
  the body of the generator's loop, which runs only for a positive batch size.
\<close>

definition generate :: "world \<Rightarrow> Config \<Rightarrow> int \<Rightarrow> int \<Rightarrow> js_error + UserData list" where
  "generate w cfg batchIndex batchSize =
     (case generator_throws w batchIndex of
        Some e \<Rightarrow>
          if 0 < batchSize then Inl e
          else Inr (generateUserBatch (Date_now w batchIndex) (random_first w batchIndex)
                 (random_last w batchIndex) batchSize
                 (seeding_emailDomain cfg) (seeding_defaultPassword cfg))
      | None \<Rightarrow>
          Inr (generateUserBatch (Date_now w batchIndex) (random_first w batchIndex)
                 (random_last w batchIndex) batchSize
                 (seeding_emailDomain cfg) (seeding_defaultPassword cfg)))"

text \<open>
  \<^verbatim>\<open>createUser\<close> (the same in \<^verbatim>\<open>AuthUserSeeder\<close> and \<^verbatim>\<open>BatchSeeder\<close>): one remote call;
  the promise is rejected with the error the call returned or threw.
\<close>

definition createUser :: "world \<Rightarrow> int \<Rightarrow> nat \<Rightarrow> UserData \<Rightarrow> js_error option" where
  "createUser w batchIndex i userData = admin_createUser w batchIndex i 1 userData"

text \<open>
  \<^verbatim>\<open>Promise.allSettled(users.map(user => this.createUser(user)))\<close> for the records at positions
  \<open>offset, offset + 1, ...\<close> of batch \<open>batchIndex\<close>, and the two counts taken from it.
\<close>

definition allSettled :: "world \<Rightarrow> int \<Rightarrow> nat \<Rightarrow> UserData list \<Rightarrow> js_error option list" where
  "allSettled w batchIndex offset users =
     map (\<lambda>(i, u). createUser w batchIndex i u) (zip [offset ..< offset + length users] users)"

definition successes :: "js_error option list \<Rightarrow> nat" where
  "successes results = length (filter (\<lambda>r. r = None) results)"

definition failures :: "js_error option list \<Rightarrow> nat" where
  "failures results = length (filter (\<lambda>r. r \<noteq> None) results)"

section \<open>Partition into batches\<close>

text \<open>
  \<^verbatim>\<open>Math.ceil(totalUsers / batchSize)\<close> on integers: a division by zero gives an infinity
  or \<^verbatim>\<open>NaN\<close>. (For integers below \<open>2^53\<close> the rounding of the quotient to a double does
  not change its ceiling.)
\<close>

datatype jsnum = Num int | PosInfinity | NegInfinity | NaN

definition Math_ceil_div :: "int \<Rightarrow> int \<Rightarrow> jsnum" where
  "Math_ceil_div a b =
     (if b = 0 then (if 0 < a then PosInfinity else if a < 0 then NegInfinity else NaN)
      else Num \<lceil>(of_int a :: rat) / of_int b\<rceil>)"

fun js_less :: "int \<Rightarrow> jsnum \<Rightarrow> bool" where
  "js_less i (Num n) = (i < n)"
| "js_less i PosInfinity = True"
| "js_less i NegInfinity = False"
| "js_less i NaN = False"

definition currentBatchSize :: "int \<Rightarrow> int \<Rightarrow> int \<Rightarrow> int" where
  "currentBatchSize totalUsers batchSize batchIndex =
     (let remainingUsers = totalUsers - batchIndex * batchSize
      in min batchSize remainingUsers)"

section \<open>The seeders\<close>

text \<open>
  The counters of a seeder object, with two ghost fields: \<open>calls\<close> lists the invocations
  \<^verbatim>\<open>processBatch(batchIndex, batchSize)\<close> in the order they are made, and \<open>generated\<close>
  the records produced by the generator during the run.
\<close>

record seeder =
  processedUsers :: int
  errors :: int
  calls :: "(int \<times> int) list"
  generated :: "UserData list"

definition new_seeder :: seeder where
  "new_seeder = \<lparr>processedUsers = 0, errors = 0, calls = [], generated = []\<rparr>"

definition tally :: "js_error option list \<Rightarrow> 'a seeder_scheme \<Rightarrow> 'a seeder_scheme" where
  "tally results st =
     st\<lparr>processedUsers := processedUsers st + int (successes results),
        errors := errors st + int (failures results)\<rparr>"

text \<open>
  The \<^verbatim>\<open>for\<close> loop over the batches, shared by the two sequential seeders:
  \<^verbatim>\<open>for (let batchIndex = 0; batchIndex < batches; batchIndex++)\<close> with a finite bound.
\<close>

function for_batches ::
  "(int \<Rightarrow> int \<Rightarrow> seeder \<Rightarrow> seeder) \<Rightarrow> int \<Rightarrow> int \<Rightarrow> int \<Rightarrow> int \<Rightarrow> seeder \<Rightarrow> seeder" where
  "for_batches processBatch totalUsers batchSize batches batchIndex st =
     (if batchIndex < batches then
        for_batches processBatch totalUsers batchSize batches (batchIndex + 1)
          (processBatch batchIndex (currentBatchSize totalUsers batchSize batchIndex) st)
      else st)"
  by pat_completeness auto
termination
  by (relation "measure (\<lambda>(p, t, b, n, i, st). nat (n - i))") auto

declare for_batches.simps [simp del]

text \<open>
  A sequential \<^verbatim>\<open>seedUsers\<close>: with an infinite number of batches (batch size 0 and a
  positive total) the loop never ends, which is the value \<open>None\<close>; with \<^verbatim>\<open>NaN\<close> or
  \<open>-Infinity\<close> the loop condition is false at once.
\<close>

definition seedUsers_seq ::
  "(int \<Rightarrow> int \<Rightarrow> seeder \<Rightarrow> seeder) \<Rightarrow> int \<Rightarrow> int \<Rightarrow> seeder option" where
  "seedUsers_seq processBatch totalUsers batchSize =
     (case Math_ceil_div totalUsers batchSize of
        Num batches \<Rightarrow> Some (for_batches processBatch totalUsers batchSize batches 0 new_seeder)
      | PosInfinity \<Rightarrow> None
      | NegInfinity \<Rightarrow> Some new_seeder
      | NaN \<Rightarrow> Some new_seeder)"

subsection \<open>BatchSeeder (batch-seeder.ts): the chunked policy\<close>

definition chunkSize :: nat where
  "chunkSize = 100"

function chunk_loop :: "world \<Rightarrow> int \<Rightarrow> UserData list \<Rightarrow> nat \<Rightarrow> seeder \<Rightarrow> seeder" where
  "chunk_loop w batchIndex users i st =
     (if i < length users then
        (let chunk = take chunkSize (drop i users);
             results = allSettled w batchIndex i chunk
         in chunk_loop w batchIndex users (i + chunkSize) (tally results st))
      else st)"
  by pat_completeness auto
termination
  by (relation "measure (\<lambda>(w, k, users, i, st). length users - i)") (auto simp: chunkSize_def)

declare chunk_loop.simps [simp del]

definition BatchSeeder_processBatch ::
  "world \<Rightarrow> Config \<Rightarrow> int \<Rightarrow> int \<Rightarrow> seeder \<Rightarrow> seeder" where
  "BatchSeeder_processBatch w cfg batchIndex batchSize st0 =
     (let st = st0\<lparr>calls := calls st0 @ [(batchIndex, batchSize)]\<rparr>
      in case generate w cfg batchIndex batchSize of
           Inr users \<Rightarrow> chunk_loop w batchIndex users 0 (st\<lparr>generated := generated st @ users\<rparr>)
         | Inl e \<Rightarrow> st\<lparr>errors := errors st + batchSize\<rparr>)"

definition BatchSeeder_seedUsers :: "world \<Rightarrow> Config \<Rightarrow> seeder option" where
  "BatchSeeder_seedUsers w cfg =
     seedUsers_seq (BatchSeeder_processBatch w cfg)
       (seeding_totalUsers cfg) (seeding_batchSize cfg)"

subsection \<open>ConservativeSeeder (conservative-seeder.ts): the conservative policy\<close>

definition isNetworkError :: "js_error \<Rightarrow> bool" where
  "isNetworkError e =
     (case e of
        JsError message \<Rightarrow>
          str_includes message ''fetch failed'' \<or>
          str_includes message ''ETIMEDOUT'' \<or>
          str_includes message ''ECONNRESET''
      | NonError other \<Rightarrow> False)"

text \<open>
  What one call of \<^verbatim>\<open>createUserWithRetry\<close> did: how it ended (\<open>None\<close>: it returned,
  \<open>Some e\<close>: it threw \<open>e\<close>), how many remote calls it made, and the pauses
  \<^verbatim>\<open>delay(waitTime)\<close> it made between them, in milliseconds.
\<close>

record retry_result =
  outcome :: "js_error option"
  attempts :: nat
  waits :: "nat list"

function retry_loop ::
  "(nat \<Rightarrow> js_error option) \<Rightarrow> nat \<Rightarrow> nat \<Rightarrow> nat list \<Rightarrow> retry_result" where
  "retry_loop remote maxRetries attempt ws =
     (if attempt \<le> maxRetries then
        (case remote attempt of
           None \<Rightarrow> \<lparr>outcome = None, attempts = attempt, waits = ws\<rparr>
         | Some e \<Rightarrow>
             if isNetworkError e \<and> attempt < maxRetries then
               (let waitTime = attempt * 1000
                in retry_loop remote maxRetries (attempt + 1) (ws @ [waitTime]))
             else \<lparr>outcome = Some e, attempts = attempt, waits = ws\<rparr>)
      else \<lparr>outcome = None, attempts = attempt - 1, waits = ws\<rparr>)"
  by pat_completeness auto
termination
  by (relation "measure (\<lambda>(r, m, a, ws). Suc m - a)") auto

declare retry_loop.simps [simp del]

definition createUserWithRetry :: "(nat \<Rightarrow> js_error option) \<Rightarrow> retry_result" where
  "createUserWithRetry remote = retry_loop remote 3 1 []"

text \<open>
  The loop over the records of a batch, \<^verbatim>\<open>for (let i = 0; i < users.length; i++)\<close>,
  one record at a time; the inner \<^verbatim>\<open>try\<close>/\<^verbatim>\<open>catch\<close> turns a record whose creation threw
  into one more error.
\<close>

fun record_loop :: "world \<Rightarrow> int \<Rightarrow> nat \<Rightarrow> UserData list \<Rightarrow> seeder \<Rightarrow> seeder" where
  "record_loop w batchIndex i [] st = st"
| "record_loop w batchIndex i (u # us) st =
     record_loop w batchIndex (i + 1) us
       (case outcome (createUserWithRetry (\<lambda>a. admin_createUser w batchIndex i a u)) of
          None \<Rightarrow> st\<lparr>processedUsers := processedUsers st + 1\<rparr>
        | Some e \<Rightarrow> st\<lparr>errors := errors st + 1\<rparr>)"

definition processBatchConservative ::
  "world \<Rightarrow> Config \<Rightarrow> int \<Rightarrow> int \<Rightarrow> seeder \<Rightarrow> seeder" where
  "processBatchConservative w cfg batchIndex batchSize st0 =
     (let st = st0\<lparr>calls := calls st0 @ [(batchIndex, batchSize)]\<rparr>
      in case generate w cfg batchIndex batchSize of
           Inr users \<Rightarrow> record_loop w batchIndex 0 users (st\<lparr>generated := generated st @ users\<rparr>)
         | Inl e \<Rightarrow> st\<lparr>errors := errors st + batchSize\<rparr>)"

definition ConservativeSeeder_seedUsers :: "world \<Rightarrow> Config \<Rightarrow> seeder option" where
  "ConservativeSeeder_seedUsers w cfg =
     (let batchSize = min (seeding_batchSize cfg) 100
      in seedUsers_seq (processBatchConservative w cfg) (seeding_totalUsers cfg) batchSize)"

subsection \<open>AuthUserSeeder (seeder.ts): the concurrent policy\<close>

text \<open>
  \<^verbatim>\<open>seedUsers\<close> keeps an array \<open>semaphore\<close> of \<open>concurrentBatches\<close> slots. A slot holds
  \<^verbatim>\<open>null\<close> or the promise of a batch in flight, which is in one of two stages: its
  requests are out and \<^verbatim>\<open>Promise.allSettled\<close> is awaited (\<open>Awaiting\<close>), or the counters
  have been updated (by the tally, or by the \<^verbatim>\<open>catch\<close> block) and the promise is about
  to resolve and run its \<^verbatim>\<open>finally\<close> callback (\<open>Completing\<close>).

  The program runs on one thread; what interleaves are the passes of the main loop and the
  continuations of the batches. A run is therefore driven by a schedule, a list of events:
  \<open>MainLoop\<close> is one pass of the \<^verbatim>\<open>while\<close> loop (or, after the loop, one look at the final
  \<^verbatim>\<open>Promise.all\<close>), \<open>AllSettled j\<close> resumes the batch in slot \<open>j\<close> after its requests have
  settled, \<open>Finally j\<close> resolves the promise in slot \<open>j\<close> and runs its callback. An event
  that is not enabled leaves the state as it is. Every interleaving of the program is a
  schedule.
\<close>

datatype promise = Awaiting int "UserData list" | Completing int

fun batch_of :: "promise \<Rightarrow> int" where
  "batch_of (Awaiting k users) = k"
| "batch_of (Completing k) = k"

datatype phase = Running | Draining | Finished

text \<open>
  The ghost field \<open>in_flight\<close> lists the batches whose \<^verbatim>\<open>processBatch\<close> promise has been
  created and has not resolved yet.
\<close>

record AuthUserSeeder = seeder +
  phase :: phase
  currentBatch :: int
  semaphore :: "promise option list"
  in_flight :: "int list"

datatype event = MainLoop | AllSettled nat | Finally nat

text \<open>\<^verbatim>\<open>new Array(concurrentBatches).fill(null)\<close> throws a \<^verbatim>\<open>RangeError\<close> for an invalid length.\<close>

definition seedUsers_start :: "Config \<Rightarrow> js_error + AuthUserSeeder" where
  "seedUsers_start cfg =
     (let concurrentBatches = seeding_concurrentBatches cfg
      in if concurrentBatches < 0 \<or> 4294967295 < concurrentBatches
         then Inl (JsError ''Invalid array length'')
         else Inr \<lparr>processedUsers = 0, errors = 0, calls = [], generated = [],
                   phase = Running, currentBatch = 0,
                   semaphore = replicate (nat concurrentBatches) None, in_flight = []\<rparr>)"

definition availableSlots :: "promise option list \<Rightarrow> nat" where
  "availableSlots sem = length (filter (\<lambda>slot. slot = None) sem)"

text \<open>\<^verbatim>\<open>semaphore.findIndex(slot => slot === null)\<close>, called only when a slot is free.\<close>

fun findIndex_null :: "promise option list \<Rightarrow> nat" where
  "findIndex_null [] = 0"
| "findIndex_null (slot # sem) = (if slot = None then 0 else Suc (findIndex_null sem))"

text \<open>
  The synchronous part of \<^verbatim>\<open>processBatch\<close>, run when the batch is dispatched: the records
  are generated and their requests sent, or the generator throws and the \<^verbatim>\<open>catch\<close> block
  counts the whole batch as errors.
\<close>

definition processBatch_start ::
  "world \<Rightarrow> Config \<Rightarrow> int \<Rightarrow> int \<Rightarrow> AuthUserSeeder \<Rightarrow> promise \<times> AuthUserSeeder" where
  "processBatch_start w cfg batchIndex batchSize st0 =
     (let st = st0\<lparr>calls := calls st0 @ [(batchIndex, batchSize)],
                   in_flight := in_flight st0 @ [batchIndex]\<rparr>
      in case generate w cfg batchIndex batchSize of
           Inr users \<Rightarrow> (Awaiting batchIndex users, st\<lparr>generated := generated st @ users\<rparr>)
         | Inl e \<Rightarrow> (Completing batchIndex, st\<lparr>errors := errors st + batchSize\<rparr>))"

definition dispatch :: "world \<Rightarrow> Config \<Rightarrow> AuthUserSeeder \<Rightarrow> AuthUserSeeder" where
  "dispatch w cfg st =
     (let batchIndex = currentBatch st;
          st1 = st\<lparr>currentBatch := batchIndex + 1\<rparr>;
          batchSize = currentBatchSize (seeding_totalUsers cfg) (seeding_batchSize cfg) batchIndex;
          slotIndex = findIndex_null (semaphore st1);
          (p, st2) = processBatch_start w cfg batchIndex batchSize st1
      in st2\<lparr>semaphore := (semaphore st2)[slotIndex := Some p]\<rparr>)"

definition main_loop :: "world \<Rightarrow> Config \<Rightarrow> AuthUserSeeder \<Rightarrow> AuthUserSeeder" where
  "main_loop w cfg st =
     (let batches = Math_ceil_div (seeding_totalUsers cfg) (seeding_batchSize cfg)
      in case phase st of
           Running \<Rightarrow>
             if js_less (currentBatch st) batches then
               (if 0 < availableSlots (semaphore st) \<and> js_less (currentBatch st) batches
                then dispatch w cfg st
                else st)
             else st\<lparr>phase := Draining\<rparr>
         | Draining \<Rightarrow>
             if filter (\<lambda>slot. slot \<noteq> None) (semaphore st) = [] then st\<lparr>phase := Finished\<rparr>
             else st
         | Finished \<Rightarrow> st)"

text \<open>The rest of \<^verbatim>\<open>processBatch\<close> after \<^verbatim>\<open>await Promise.allSettled(promises)\<close>.\<close>

definition all_settled :: "world \<Rightarrow> nat \<Rightarrow> AuthUserSeeder \<Rightarrow> AuthUserSeeder" where
  "all_settled w j st =
     (if j < length (semaphore st) then
        (case semaphore st ! j of
           Some (Awaiting k users) \<Rightarrow>
             (tally (allSettled w k 0 users) st)
               \<lparr>semaphore := (semaphore st)[j := Some (Completing k)]\<rparr>
         | _ \<Rightarrow> st)
      else st)"

text \<open>\<^verbatim>\<open>.finally(() => { semaphore[slotIndex] = null; })\<close>\<close>

definition finally_callback :: "nat \<Rightarrow> AuthUserSeeder \<Rightarrow> AuthUserSeeder" where
  "finally_callback j st =
     (if j < length (semaphore st) then
        (case semaphore st ! j of
           Some (Completing k) \<Rightarrow>
             st\<lparr>in_flight := remove1 k (in_flight st),
                semaphore := (semaphore st)[j := None]\<rparr>
         | _ \<Rightarrow> st)
      else st)"

fun step :: "world \<Rightarrow> Config \<Rightarrow> AuthUserSeeder \<Rightarrow> event \<Rightarrow> AuthUserSeeder" where
  "step w cfg st MainLoop = main_loop w cfg st"
| "step w cfg st (AllSettled j) = all_settled w j st"
| "step w cfg st (Finally j) = finally_callback j st"

definition run :: "world \<Rightarrow> Config \<Rightarrow> event list \<Rightarrow> AuthUserSeeder \<Rightarrow> AuthUserSeeder" where
  "run w cfg schedule st = foldl (step w cfg) st schedule"

text \<open>
  The states of \<^verbatim>\<open>AuthUserSeeder.seedUsers\<close>: those a schedule leads to from the start.
\<close>

definition reachable :: "world \<Rightarrow> Config \<Rightarrow> AuthUserSeeder \<Rightarrow> bool" where
  "reachable w cfg st =
     (\<exists>st0 schedule. seedUsers_start cfg = Inr st0 \<and> st = run w cfg schedule st0)"

section \<open>Numbers (IEEE 754 doubles)\<close>

text \<open>
  A JavaScript number is a double: a significand of 53 bits times a power of two. The
  finite doubles are modelled as the rationals they denote, and each arithmetic operation
  as the exact operation followed by the rounding to the nearest double, ties to the even
  significand. The exponent is not bounded in this model: a quotient or product of
  integers below \<open>2^53\<close> in magnitude, as the counters, settings and clock readings of
  this program are, is far from the overflow and underflow thresholds of the format
  (\<open>2^1024\<close> and \<open>2^-1022\<close>).

  \<open>exponent_of x\<close> is the exponent \<open>e\<close> with \<open>2^e \<le> |x| < 2^(e+1)\<close>, for \<open>x \<noteq> 0\<close>.
\<close>

definition exponent_of :: "rat \<Rightarrow> int" where
  "exponent_of x =
     (if 1 \<le> \<bar>x\<bar> then bitlen \<lfloor>\<bar>x\<bar>\<rfloor> - 1 else - bitlen (\<lceil>1 / \<bar>x\<bar>\<rceil> - 1))"

definition round_half_even :: "rat \<Rightarrow> int" where
  "round_half_even x =
     (let f = \<lfloor>x\<rfloor>; r = x - of_int f
      in if r < 1 / 2 then f else if 1 / 2 < r then f + 1 else if even f then f else f + 1)"

definition round_double :: "rat \<Rightarrow> rat" where
  "round_double x =
     (if x = 0 then 0
      else (let ulp = 2 powi (exponent_of x - 52)
            in of_int (round_half_even (x / ulp)) * ulp))"



section \<open>Progress utilities (utils.ts)\<close>


text \<open>
  \<^verbatim>\<open>calculateETA\<close> reads the clock (\<open>now\<close>). Each of its subtractions and divisions is
  rounded to a double; \<^verbatim>\<open>%\<close> is the remainder that takes the sign of the dividend, which
  is exact, as is \<^verbatim>\<open>Math.floor\<close>. With no time elapsed the rate \<^verbatim>\<open>processed / elapsed\<close> is
  infinite and the estimate is 0. (\<open>etaMs\<close> is only computed for \<open>processed \<noteq> 0\<close>.)
  The three fields are rendered in decimal digits, as a template literal renders an
  integer of magnitude below \<open>10^21\<close>.
\<close>

definition toString_int :: "int \<Rightarrow> string" where
  "toString_int i = (if i < 0 then ''-'' @ toString_nat (nat (- i)) else toString_nat (nat i))"

definition js_rem :: "rat \<Rightarrow> rat \<Rightarrow> rat" where
  "js_rem x m = x - m * of_int (if 0 \<le> x / m then \<lfloor>x / m\<rfloor> else \<lceil>x / m\<rceil>)"

definition etaMs :: "int \<Rightarrow> int \<Rightarrow> int \<Rightarrow> int \<Rightarrow> rat" where
  "etaMs processed total' startTime now =
     (let elapsed = round_double (of_int now - of_int startTime);
          rate = round_double (of_int processed / elapsed);
          remaining = round_double (of_int total' - of_int processed)
      in if elapsed = 0 then 0 else round_double (remaining / rate))"

datatype eta =
    Calculating
  | HoursMinutesSeconds int int int
  | MinutesSeconds int int
  | Seconds int

definition calculateETA_parts :: "int \<Rightarrow> int \<Rightarrow> int \<Rightarrow> int \<Rightarrow> eta" where
  "calculateETA_parts processed total' startTime now =
     (if processed = 0 then Calculating
      else
        (let ms = etaMs processed total' startTime now;
             hours = \<lfloor>round_double (ms / (1000 * 60 * 60))\<rfloor>;
             minutes = \<lfloor>round_double (js_rem ms (1000 * 60 * 60) / (1000 * 60))\<rfloor>;
             seconds = \<lfloor>round_double (js_rem ms (1000 * 60) / 1000)\<rfloor>
         in if hours > 0 then HoursMinutesSeconds hours minutes seconds
            else if minutes > 0 then MinutesSeconds minutes seconds
            else Seconds seconds))"

fun render_eta :: "eta \<Rightarrow> string" where
  "render_eta Calculating = ''Calculating...''"
| "render_eta (HoursMinutesSeconds h m s) =
     toString_int h @ ''h '' @ toString_int m @ ''m '' @ toString_int s @ ''s''"
| "render_eta (MinutesSeconds m s) = toString_int m @ ''m '' @ toString_int s @ ''s''"
| "render_eta (Seconds s) = toString_int s @ ''s''"

definition calculateETA :: "int \<Rightarrow> int \<Rightarrow> int \<Rightarrow> int \<Rightarrow> string" where
  "calculateETA processed total' startTime now =
     render_eta (calculateETA_parts processed total' startTime now)"

text \<open>The length of time, in seconds, that a returned estimate displays.\<close>

fun displayed_seconds :: "eta \<Rightarrow> int" where
  "displayed_seconds Calculating = 0"
| "displayed_seconds (HoursMinutesSeconds h m s) = h * 3600 + m * 60 + s"
| "displayed_seconds (MinutesSeconds m s) = m * 60 + s"
| "displayed_seconds (Seconds s) = s"

section \<open>The three entry points\<close>

text \<open>
  What an entry point \<^verbatim>\<open>main\<close> leaves behind: the exit status (\<open>None\<close> while the process
  has not ended), the lines written by \<^verbatim>\<open>console.error\<close> (without their emoji), and the
  seeder's state once \<^verbatim>\<open>seedUsers\<close> has been entered, that is, once account-creation work
  has started (\<open>None\<close> before). The constructor of each seeder calls
  \<^verbatim>\<open>createClient(url, serviceRoleKey)\<close> of the client library, which is not part of this
  repository: it is a parameter of the entry points, \<open>Some e\<close> when it throws \<open>e\<close>.

  \<open>supabase_createClient\<close> is the argument check with which the library's constructor
  begins: \<^verbatim>\<open>if (!supabaseUrl) throw new Error('supabaseUrl is required.')\<close>, then
  \<^verbatim>\<open>if (!supabaseKey) throw new Error('supabaseKey is required.')\<close>. No other behaviour
  of the library is modelled.
\<close>

definition supabase_createClient :: "string \<Rightarrow> string \<Rightarrow> js_error option" where
  "supabase_createClient supabaseUrl supabaseKey =
     (if supabaseUrl = [] then Some (JsError ''supabaseUrl is required.'')
      else if supabaseKey = [] then Some (JsError ''supabaseKey is required.'')
      else None)"

record 's report =
  exit_code :: "int option"
  console_error :: "string list"
  seeded :: "'s option"

fun error_text :: "js_error \<Rightarrow> string" where
  "error_text (JsError message) = message"
| "error_text (NonError other) = other"

definition seeding_failed :: "js_error \<Rightarrow> 's report" where
  "seeding_failed e =
     \<lparr>exit_code = Some 1, console_error = [''Seeding failed:'', error_text e], seeded = None\<rparr>"

text \<open>
  \<^verbatim>\<open>main\<close> of index.ts (the concurrent policy): \<^verbatim>\<open>validateConfig()\<close>, then the constructor,
  then \<^verbatim>\<open>seedUsers()\<close> under a schedule. The process ends with status 0 when the run has
  finished.
\<close>

definition main_index ::
  "(string \<Rightarrow> string \<Rightarrow> js_error option) \<Rightarrow> world \<Rightarrow> Config \<Rightarrow> event list \<Rightarrow>
   AuthUserSeeder report" where
  "main_index createClient w cfg schedule =
     (case validateConfig cfg of
        Inl e \<Rightarrow> seeding_failed e
      | Inr u \<Rightarrow>
          (case createClient (supabase_url cfg) (supabase_serviceRoleKey cfg) of
             Some e \<Rightarrow> seeding_failed e
           | None \<Rightarrow>
               (case seedUsers_start cfg of
                  Inl e \<Rightarrow> seeding_failed e
                | Inr st0 \<Rightarrow>
                    (let st = run w cfg schedule st0
                     in \<lparr>exit_code = (if phase st = Finished then Some 0 else None),
                         console_error = [], seeded = Some st\<rparr>))))"

text \<open>
  \<^verbatim>\<open>main\<close> of batch-seeder.ts and of conservative-seeder.ts: the constructor, then
  \<^verbatim>\<open>seedUsers()\<close>, both inside the \<^verbatim>\<open>try\<close> block; neither calls \<^verbatim>\<open>validateConfig\<close>, so a
  missing credential is met by the constructor of the client.
\<close>

definition main_sequential ::
  "(world \<Rightarrow> Config \<Rightarrow> seeder option) \<Rightarrow> (string \<Rightarrow> string \<Rightarrow> js_error option) \<Rightarrow>
   world \<Rightarrow> Config \<Rightarrow> seeder report" where
  "main_sequential seedUsers createClient w cfg =
     (case createClient (supabase_url cfg) (supabase_serviceRoleKey cfg) of
        Some e \<Rightarrow> seeding_failed e
      | None \<Rightarrow>
          (case seedUsers w cfg of
             Some st \<Rightarrow> \<lparr>exit_code = Some 0, console_error = [], seeded = Some st\<rparr>
           | None \<Rightarrow> \<lparr>exit_code = None, console_error = [], seeded = None\<rparr>))"

definition main_batch ::
  "(string \<Rightarrow> string \<Rightarrow> js_error option) \<Rightarrow> world \<Rightarrow> Config \<Rightarrow> seeder report" where
  "main_batch = main_sequential BatchSeeder_seedUsers"

definition main_conservative ::
  "(string \<Rightarrow> string \<Rightarrow> js_error option) \<Rightarrow> world \<Rightarrow> Config \<Rightarrow> seeder report" where
  "main_conservative = main_sequential ConservativeSeeder_seedUsers"

section \<open>Auxiliary definitions\<close>

text \<open>
  Notions used to state and prove the properties below: the batch indices of a run, the
  outcome lists of a batch, the contribution of one batch to the two counters, the
  invariant of the concurrent seeder, the value of a digit string, and the configurations
  and environments of the examples.
\<close>

definition retrySettled :: "world \<Rightarrow> int \<Rightarrow> nat \<Rightarrow> UserData list \<Rightarrow> js_error option list" where
  "retrySettled w batchIndex offset users =
     map (\<lambda>(i, u). outcome (createUserWithRetry (\<lambda>a. admin_createUser w batchIndex i a u)))
       (zip [offset ..< offset + length users] users)"

definition batch_delta ::
  "(int \<Rightarrow> UserData list \<Rightarrow> js_error option list) \<Rightarrow> world \<Rightarrow> Config \<Rightarrow> int \<Rightarrow> int \<Rightarrow> int \<times> int" where
  "batch_delta res w cfg k s =
     (case generate w cfg k s of
        Inl e \<Rightarrow> (0, s)
      | Inr users \<Rightarrow> (int (successes (res k users)), int (failures (res k users))))"

definition batch_users :: "world \<Rightarrow> Config \<Rightarrow> int \<Rightarrow> int \<Rightarrow> UserData list" where
  "batch_users w cfg k s = (case generate w cfg k s of Inl e \<Rightarrow> [] | Inr users \<Rightarrow> users)"

definition batch_range :: "int \<Rightarrow> int list" where
  "batch_range n = map int [0 ..< nat n]"

definition pending_ok :: "world \<Rightarrow> promise option \<Rightarrow> int" where
  "pending_ok w slot =
     (case slot of Some (Awaiting k users) \<Rightarrow> int (successes (allSettled w k 0 users)) | _ \<Rightarrow> 0)"

definition pending_err :: "world \<Rightarrow> promise option \<Rightarrow> int" where
  "pending_err w slot =
     (case slot of Some (Awaiting k users) \<Rightarrow> int (failures (allSettled w k 0 users)) | _ \<Rightarrow> 0)"

definition occupant :: "promise option \<Rightarrow> int multiset" where
  "occupant slot = (case slot of None \<Rightarrow> {#} | Some p \<Rightarrow> {#batch_of p#})"

definition batches_of :: "Config \<Rightarrow> jsnum" where
  "batches_of cfg = Math_ceil_div (seeding_totalUsers cfg) (seeding_batchSize cfg)"

definition size_of :: "Config \<Rightarrow> int \<Rightarrow> int" where
  "size_of cfg q = currentBatchSize (seeding_totalUsers cfg) (seeding_batchSize cfg) q"

definition delta_of :: "world \<Rightarrow> Config \<Rightarrow> int \<Rightarrow> int \<times> int" where
  "delta_of w cfg q = batch_delta (\<lambda>k. allSettled w k 0) w cfg q (size_of cfg q)"

definition inv :: "world \<Rightarrow> Config \<Rightarrow> AuthUserSeeder \<Rightarrow> bool" where
  "inv w cfg st \<longleftrightarrow>
     0 \<le> currentBatch st \<and>
     (\<forall>n. batches_of cfg = Num n \<longrightarrow> currentBatch st \<le> max 0 n) \<and>
     (batches_of cfg = NaN \<or> batches_of cfg = NegInfinity \<longrightarrow> currentBatch st = 0) \<and>
     (phase st \<noteq> Running \<longrightarrow> \<not> js_less (currentBatch st) (batches_of cfg)) \<and>
     (phase st = Finished \<longrightarrow> (\<forall>slot \<in> set (semaphore st). slot = None)) \<and>
     length (semaphore st) = nat (seeding_concurrentBatches cfg) \<and>
     mset (in_flight st) = (\<Sum>slot\<leftarrow>semaphore st. occupant slot) \<and>
     calls st = map (\<lambda>q. (q, size_of cfg q)) (batch_range (currentBatch st)) \<and>
     generated st =
       concat (map (\<lambda>q. batch_users w cfg q (size_of cfg q)) (batch_range (currentBatch st))) \<and>
     processedUsers st + (\<Sum>slot\<leftarrow>semaphore st. pending_ok w slot) =
       (\<Sum>q\<leftarrow>batch_range (currentBatch st). fst (delta_of w cfg q)) \<and>
     errors st + (\<Sum>slot\<leftarrow>semaphore st. pending_err w slot) =
       (\<Sum>q\<leftarrow>batch_range (currentBatch st). snd (delta_of w cfg q))"

definition digit_val :: "char \<Rightarrow> nat" where
  "digit_val c = (of_char c :: nat) - 48"

definition parse_nat :: "string \<Rightarrow> nat" where
  "parse_nat s = foldl (\<lambda>a c. 10 * a + digit_val c) 0 s"

definition final_range :: "Config \<Rightarrow> int list" where
  "final_range cfg = (case batches_of cfg of Num n \<Rightarrow> batch_range n | _ \<Rightarrow> [])"

definition conservative_config :: "Config \<Rightarrow> Config" where
  "conservative_config cfg = cfg\<lparr>seeding_batchSize := min (seeding_batchSize cfg) 100\<rparr>"

definition retry_delta_of :: "world \<Rightarrow> Config \<Rightarrow> int \<Rightarrow> int \<times> int" where
  "retry_delta_of w cfg q = batch_delta (\<lambda>k. retrySettled w k 0) w cfg q (size_of cfg q)"

definition config_of :: "string \<Rightarrow> string \<Rightarrow> int \<Rightarrow> int \<Rightarrow> int \<Rightarrow> Config" where
  "config_of url key totalUsers batchSize concurrentBatches =
     \<lparr>supabase_url = url, supabase_serviceRoleKey = key,
      seeding_totalUsers = totalUsers, seeding_batchSize = batchSize,
      seeding_concurrentBatches = concurrentBatches,
      seeding_defaultPassword = ''password123'', seeding_emailDomain = ''example.com''\<rparr>"

definition quiet_world :: world where
  "quiet_world =
     \<lparr>Date_now = (\<lambda>k. 1730000000000 + 250 * nat k),
      random_first = (\<lambda>k i. 0), random_last = (\<lambda>k i. 0),
      generator_throws = (\<lambda>k. None),
      admin_createUser = (\<lambda>k i a u. None)\<rparr>"

definition multiple_of_5_world :: "int \<Rightarrow> world" where
  "multiple_of_5_world batchSize =
     quiet_world\<lparr>admin_createUser :=
       (\<lambda>k i a u. if 5 dvd (k * batchSize + int i) then Some (JsError ''rejected'') else None)\<rparr>"


text \<open>
  An environment in which the generator of batch 1 throws and the creator rejects record
  0 of batch 2.
\<close>

definition generator_fault_world :: world where
  "generator_fault_world =
     quiet_world\<lparr>generator_throws :=
         (\<lambda>k. if k = 1 then Some (JsError ''generator failed'') else None),
       admin_createUser :=
         (\<lambda>k i a u. if k = 2 \<and> i = 0 then Some (JsError ''User already registered'')
                    else None)\<rparr>"

definition same_millisecond_world :: world where
  "same_millisecond_world = quiet_world\<lparr>Date_now := (\<lambda>k. 1730000000000)\<rparr>"

text \<open>
  The partition as the specification words it: \<open>ceil(total_count / batch_size)\<close> batches,
  batch \<open>i\<close> of size \<open>min(batch_size, total_count - i * batch_size)\<close>.
\<close>

definition spec_batches :: "int \<Rightarrow> int \<Rightarrow> (int \<times> int) list" where
  "spec_batches total_count batch_size =
     map (\<lambda>i. (i, min batch_size (total_count - i * batch_size)))
       (batch_range \<lceil>(of_int total_count :: rat) / of_int batch_size\<rceil>)"

definition never_fails :: "world \<Rightarrow> bool" where
  "never_fails w \<longleftrightarrow>
     (\<forall>k i a u. admin_createUser w k i a u = None) \<and> (\<forall>k. generator_throws w k = None)"

text \<open>The concurrent seeder between two batches: running, with every slot free.\<close>

definition idle :: "nat \<Rightarrow> int \<Rightarrow> AuthUserSeeder \<Rightarrow> bool" where
  "idle c j st \<longleftrightarrow> phase st = Running \<and> currentBatch st = j \<and> semaphore st = replicate c None"



text \<open>The doubles: the numbers that rounding leaves as they are.\<close>

definition is_double :: "rat \<Rightarrow> bool" where
  "is_double x \<longleftrightarrow> round_double x = x"


text \<open>The estimate that displays a whole number of seconds, in exact arithmetic.\<close>

definition eta_of_seconds :: "int \<Rightarrow> eta" where
  "eta_of_seconds X =
     (if X div 3600 > 0 then HoursMinutesSeconds (X div 3600) ((X div 60) mod 60) (X mod 60)
      else if (X div 60) mod 60 > 0 then MinutesSeconds ((X div 60) mod 60) (X mod 60)
      else Seconds (X mod 60))"

text \<open>
  The records of a batch whose creation fails, counted from the answers of the remote
  creator: without retry a record fails when its one call does; with retry it fails when
  the first answer that is not a network error, or the third answer, is an error.
\<close>

definition failed_records :: "world \<Rightarrow> int \<Rightarrow> UserData list \<Rightarrow> nat" where
  "failed_records w batchIndex users =
     length (filter (\<lambda>i. admin_createUser w batchIndex i 1 (users ! i) \<noteq> None)
       [0 ..< length users])"

definition retry_fails :: "(nat \<Rightarrow> js_error option) \<Rightarrow> bool" where
  "retry_fails remote =
     (case remote 1 of
        None \<Rightarrow> False
      | Some e1 \<Rightarrow>
          \<not> isNetworkError e1 \<or>
          (case remote 2 of
             None \<Rightarrow> False
           | Some e2 \<Rightarrow> \<not> isNetworkError e2 \<or> remote 3 \<noteq> None))"

definition failed_records_with_retry :: "world \<Rightarrow> int \<Rightarrow> UserData list \<Rightarrow> nat" where
  "failed_records_with_retry w batchIndex users =
     length (filter (\<lambda>i. retry_fails (\<lambda>a. admin_createUser w batchIndex i a (users ! i)))
       [0 ..< length users])"

text \<open>
  The work that a state of the concurrent seeder still has to do, counted in events: three
  for a batch not yet dispatched, two for a batch whose requests are out, one for a batch
  about to resolve, and the two last passes of the main loop.
\<close>

definition slot_work :: "promise option \<Rightarrow> nat" where
  "slot_work slot =
     (case slot of None \<Rightarrow> 0 | Some (Awaiting k users) \<Rightarrow> 2 | Some (Completing k) \<Rightarrow> 1)"

definition phase_work :: "phase \<Rightarrow> nat" where
  "phase_work p = (case p of Running \<Rightarrow> 2 | Draining \<Rightarrow> 1 | Finished \<Rightarrow> 0)"

definition work_left :: "Config \<Rightarrow> AuthUserSeeder \<Rightarrow> nat" where
  "work_left cfg st =
     (case batches_of cfg of Num n \<Rightarrow> 3 * nat (n - currentBatch st) | _ \<Rightarrow> 0) +
     (\<Sum>slot\<leftarrow>semaphore st. slot_work slot) + phase_work (phase st)"

text \<open>The events of a schedule that change the state they meet.\<close>

fun effective_events :: "world \<Rightarrow> Config \<Rightarrow> AuthUserSeeder \<Rightarrow> event list \<Rightarrow> nat" where
  "effective_events w cfg st [] = 0"
| "effective_events w cfg st (ev # evs) =
     (if step w cfg st ev = st then 0 else 1) + effective_events w cfg (step w cfg st ev) evs"


section \<open>Digit strings\<close>

lemma of_char_digit_char: "d < 10 \<Longrightarrow> (of_char (digit_char d) :: nat) = 48 + d"
  by (simp add: digit_char_def)

lemma is_digit_digit_char: "d < 10 \<Longrightarrow> is_digit (digit_char d)"
  by (simp add: is_digit_def of_char_digit_char)

lemma toString_nat_digits: "\<forall>c \<in> set (toString_nat n). is_digit c"
proof (induction n rule: toString_nat.induct)
  case (1 n)
  show ?case
  proof (cases "n < 10")
    case True
    then show ?thesis by (subst toString_nat.simps) (simp add: is_digit_digit_char)
  next
    case False
    with 1 show ?thesis by (subst toString_nat.simps) (simp add: is_digit_digit_char)
  qed
qed

lemma parse_nat_toString_nat: "parse_nat (toString_nat n) = n"
proof (induction n rule: toString_nat.induct)
  case (1 n)
  show ?case
  proof (cases "n < 10")
    case True
    then show ?thesis
      by (subst toString_nat.simps) (simp add: parse_nat_def digit_val_def of_char_digit_char)
  next
    case False
    with 1 have "parse_nat (toString_nat (n div 10)) = n div 10" by simp
    with False show ?thesis
      by (subst toString_nat.simps) (simp add: parse_nat_def digit_val_def of_char_digit_char)
  qed
qed

lemma toString_nat_inj: "toString_nat m = toString_nat n \<Longrightarrow> m = n"
  by (metis parse_nat_toString_nat)

lemma not_digit_minus: "\<not> is_digit CHR ''-''" by (simp add: is_digit_def)
lemma not_digit_dot: "\<not> is_digit CHR ''.''" by (simp add: is_digit_def)

text \<open>A digit string after a non-digit separator is determined by the whole string.\<close>
lemma split_last_sep:
  assumes "p @ [c] @ d = p' @ [c'] @ d'"
    and "\<forall>x \<in> set d. is_digit x" and "\<forall>x \<in> set d'. is_digit x"
    and "\<not> is_digit c" and "\<not> is_digit c'"
  shows "p = p' \<and> d = d'"
proof -
  have "takeWhile is_digit (rev (p @ [c] @ d)) = rev d"
    using assms(2,4) by (simp add: takeWhile_tail)
  moreover have "takeWhile is_digit (rev (p' @ [c'] @ d')) = rev d'"
    using assms(3,5) by (simp add: takeWhile_tail)
  ultimately have "d = d'" using assms(1) by (metis rev_rev_ident)
  with assms(1) show ?thesis by simp
qed

lemma toString_nat_small: "n < 10 \<Longrightarrow> toString_nat n = [digit_char n]"
  by (subst toString_nat.simps) simp

lemma toString_nat_large:
  "\<not> n < 10 \<Longrightarrow> toString_nat n = toString_nat (n div 10) @ [digit_char (n mod 10)]"
  by (subst toString_nat.simps) simp

section \<open>The sequential seeders\<close>

lemma Math_ceil_div_eq:
  "b \<noteq> 0 \<Longrightarrow> Math_ceil_div a b = Num (- ((- a) div b))"
  by (simp add: Math_ceil_div_def ceiling_divide_eq_div)

lemma for_batches_step:
  "batchIndex < batches \<Longrightarrow>
   for_batches pb t b batches batchIndex st =
   for_batches pb t b batches (batchIndex + 1) (pb batchIndex (currentBatchSize t b batchIndex) st)"
  by (subst for_batches.simps) simp

lemma for_batches_done:
  "\<not> batchIndex < batches \<Longrightarrow> for_batches pb t b batches batchIndex st = st"
  by (subst for_batches.simps) simp

lemma for_batches_invariant:
  assumes "I i st" and "i \<le> n"
    and "\<And>j s. i \<le> j \<Longrightarrow> j < n \<Longrightarrow> I j s \<Longrightarrow> I (j + 1) (pb j (currentBatchSize t b j) s)"
  shows "I n (for_batches pb t b n i st)"
  using assms
proof (induction pb t b n i st rule: for_batches.induct)
  case (1 pb t b n i st)
  show ?case
  proof (cases "i < n")
    case True
    have "I n (for_batches pb t b n (i + 1) (pb i (currentBatchSize t b i) st))"
    proof (rule "1.IH"[OF True])
      show "I (i + 1) (pb i (currentBatchSize t b i) st)"
        using "1.prems"(3)[of i st] True "1.prems"(1) by simp
      show "i + 1 \<le> n" using True by simp
      fix j s assume "i + 1 \<le> j" "j < n" "I j s"
      then show "I (j + 1) (pb j (currentBatchSize t b j) s)"
        using "1.prems"(3)[of j s] by simp
    qed
    then show ?thesis by (simp add: for_batches_step[OF True])
  next
    case False
    with "1.prems"(2) have "i = n" by simp
    with "1.prems"(1) False show ?thesis by (simp add: for_batches_done)
  qed
qed

lemma successes_append: "successes (xs @ ys) = successes xs + successes ys"
  by (simp add: successes_def)

lemma failures_append: "failures (xs @ ys) = failures xs + failures ys"
  by (simp add: failures_def)

lemma successes_failures: "successes rs + failures rs = length rs"
  unfolding successes_def failures_def by (rule sum_length_filter_compl)

lemma allSettled_Nil: "allSettled w k i [] = []"
  by (simp add: allSettled_def)

lemma allSettled_append:
  "allSettled w k i (xs @ ys) = allSettled w k i xs @ allSettled w k (i + length xs) ys"
proof -
  have "[i ..< i + length xs + length ys] =
        [i ..< i + length xs] @ [i + length xs ..< i + length xs + length ys]"
    by (rule upt_add_eq_append) simp
  then show ?thesis by (simp add: allSettled_def add.assoc[symmetric])
qed

lemma length_allSettled: "length (allSettled w k i xs) = length xs"
  by (simp add: allSettled_def)

lemma tally_simps:
  "processedUsers (tally rs st) = processedUsers st + int (successes rs)"
  "errors (tally rs st) = errors st + int (failures rs)"
  "calls (tally rs st) = calls st"
  "generated (tally rs st) = generated st"
  by (simp_all add: tally_def)

lemma chunk_loop_step:
  "i < length users \<Longrightarrow>
   chunk_loop w k users i st =
   chunk_loop w k users (i + chunkSize) (tally (allSettled w k i (take chunkSize (drop i users))) st)"
  by (subst chunk_loop.simps) (simp add: Let_def)

lemma chunk_loop_done: "\<not> i < length users \<Longrightarrow> chunk_loop w k users i st = st"
  by (subst chunk_loop.simps) simp

lemma chunk_loop_counts:
  "processedUsers (chunk_loop w k users i st) =
     processedUsers st + int (successes (allSettled w k i (drop i users))) \<and>
   errors (chunk_loop w k users i st) =
     errors st + int (failures (allSettled w k i (drop i users))) \<and>
   calls (chunk_loop w k users i st) = calls st \<and>
   generated (chunk_loop w k users i st) = generated st"
proof (induction w k users i st rule: chunk_loop.induct)
  case (1 w k users i st)
  show ?case
  proof (cases "i < length users")
    case False
    then show ?thesis by (simp add: chunk_loop_done allSettled_Nil successes_def failures_def)
  next
    case True
    let ?chunk = "take chunkSize (drop i users)"
    let ?st = "tally (allSettled w k i ?chunk) st"
    have IH: "processedUsers (chunk_loop w k users (i + chunkSize) ?st) =
        processedUsers ?st + int (successes (allSettled w k (i + chunkSize) (drop (i + chunkSize) users))) \<and>
      errors (chunk_loop w k users (i + chunkSize) ?st) =
        errors ?st + int (failures (allSettled w k (i + chunkSize) (drop (i + chunkSize) users))) \<and>
      calls (chunk_loop w k users (i + chunkSize) ?st) = calls ?st \<and>
      generated (chunk_loop w k users (i + chunkSize) ?st) = generated ?st"
      using "1.IH"[OF True refl refl] by simp
    have split: "drop i users = ?chunk @ drop (i + chunkSize) users"
      by (metis add.commute append_take_drop_id drop_drop)
    have rest: "allSettled w k (i + length ?chunk) (drop (i + chunkSize) users) =
                allSettled w k (i + chunkSize) (drop (i + chunkSize) users)"
    proof (cases "i + chunkSize \<le> length users")
      case True
      then have "length ?chunk = chunkSize" by simp
      then show ?thesis by simp
    next
      case False
      then have "drop (i + chunkSize) users = []" by simp
      then show ?thesis by (simp add: allSettled_Nil)
    qed
    have all: "allSettled w k i (drop i users) =
               allSettled w k i ?chunk @ allSettled w k (i + chunkSize) (drop (i + chunkSize) users)"
      by (subst split, subst allSettled_append, subst rest) simp
    show ?thesis
      using IH by (simp add: chunk_loop_step[OF True] all successes_append failures_append tally_simps)
  qed
qed

lemma record_loop_counts:
  "processedUsers (record_loop w k i us st) =
     processedUsers st + int (successes (retrySettled w k i us)) \<and>
   errors (record_loop w k i us st) = errors st + int (failures (retrySettled w k i us)) \<and>
   calls (record_loop w k i us st) = calls st \<and>
   generated (record_loop w k i us st) = generated st"
proof (induction us arbitrary: i st)
  case Nil
  then show ?case by (simp add: retrySettled_def successes_def failures_def)
next
  case (Cons u us)
  have upt: "[i ..< i + length (u # us)] = i # [i + 1 ..< i + 1 + length us]"
    by (simp add: upt_rec)
  have rs: "retrySettled w k i (u # us) =
        outcome (createUserWithRetry (\<lambda>a. admin_createUser w k i a u)) # retrySettled w k (i + 1) us"
    unfolding retrySettled_def upt by simp
  show ?case
    by (cases "outcome (createUserWithRetry (\<lambda>a. admin_createUser w k i a u))")
       (simp_all add: Cons.IH rs successes_def failures_def)
qed

lemma length_retrySettled: "length (retrySettled w k i xs) = length xs"
  by (simp add: retrySettled_def)

lemma BatchSeeder_processBatch_delta:
  "processedUsers (BatchSeeder_processBatch w cfg k s st) =
     processedUsers st + fst (batch_delta (\<lambda>k. allSettled w k 0) w cfg k s)"
  "errors (BatchSeeder_processBatch w cfg k s st) =
     errors st + snd (batch_delta (\<lambda>k. allSettled w k 0) w cfg k s)"
  "calls (BatchSeeder_processBatch w cfg k s st) = calls st @ [(k, s)]"
  "generated (BatchSeeder_processBatch w cfg k s st) = generated st @ batch_users w cfg k s"
  by (simp_all add: BatchSeeder_processBatch_def batch_delta_def batch_users_def Let_def
      chunk_loop_counts split: sum.splits)

lemma processBatchConservative_delta:
  "processedUsers (processBatchConservative w cfg k s st) =
     processedUsers st + fst (batch_delta (\<lambda>k. retrySettled w k 0) w cfg k s)"
  "errors (processBatchConservative w cfg k s st) =
     errors st + snd (batch_delta (\<lambda>k. retrySettled w k 0) w cfg k s)"
  "calls (processBatchConservative w cfg k s st) = calls st @ [(k, s)]"
  "generated (processBatchConservative w cfg k s st) = generated st @ batch_users w cfg k s"
  by (simp_all add: processBatchConservative_def batch_delta_def batch_users_def Let_def
      record_loop_counts split: sum.splits)

lemma batch_range_step: "0 \<le> j \<Longrightarrow> batch_range (j + 1) = batch_range j @ [j]"
  by (simp add: batch_range_def nat_add_distrib)

lemma batch_range_nonpos: "n \<le> 0 \<Longrightarrow> batch_range n = []"
  by (simp add: batch_range_def)

lemma for_batches_char:
  fixes st :: seeder
  assumes p: "\<And>k s st. processedUsers (pb k s st) = processedUsers st + fst (d k s)"
    and e: "\<And>k s st. errors (pb k s st) = errors st + snd (d k s)"
    and c: "\<And>k s st. calls (pb k s st) = calls st @ [(k, s)]"
    and g: "\<And>k s st. generated (pb k s st) = generated st @ u k s"
  shows "processedUsers (for_batches pb t b n 0 st) =
           processedUsers st + (\<Sum>q\<leftarrow>batch_range n. fst (d q (currentBatchSize t b q))) \<and>
         errors (for_batches pb t b n 0 st) =
           errors st + (\<Sum>q\<leftarrow>batch_range n. snd (d q (currentBatchSize t b q))) \<and>
         calls (for_batches pb t b n 0 st) =
           calls st @ map (\<lambda>q. (q, currentBatchSize t b q)) (batch_range n) \<and>
         generated (for_batches pb t b n 0 st) =
           generated st @ concat (map (\<lambda>q. u q (currentBatchSize t b q)) (batch_range n))"
proof (cases "0 \<le> n")
  case False
  then show ?thesis by (simp add: for_batches_done batch_range_nonpos)
next
  case True
  let ?I = "\<lambda>j (s::seeder). 0 \<le> j \<and>
         processedUsers s =
           processedUsers st + (\<Sum>q\<leftarrow>batch_range j. fst (d q (currentBatchSize t b q))) \<and>
         errors s =
           errors st + (\<Sum>q\<leftarrow>batch_range j. snd (d q (currentBatchSize t b q))) \<and>
         calls s = calls st @ map (\<lambda>q. (q, currentBatchSize t b q)) (batch_range j) \<and>
         generated s =
           generated st @ concat (map (\<lambda>q. u q (currentBatchSize t b q)) (batch_range j))"
  have "?I n (for_batches pb t b n 0 st)"
  proof (rule for_batches_invariant[where I = ?I])
    show "?I 0 st" by (simp add: batch_range_nonpos)
    show "0 \<le> n" by (rule True)
    fix j s assume "0 \<le> j" "j < n" "?I j s"
    then show "?I (j + 1) (pb j (currentBatchSize t b j) s)"
      by (simp add: p e c g batch_range_step)
  qed
  then show ?thesis by simp
qed

text \<open>Arithmetic of the partition, for a non-negative total and a positive batch size.\<close>

lemma ceil_bounds:
  fixes t b :: int
  assumes "1 \<le> b"
  defines "n \<equiv> - ((- t) div b)"
  shows "t \<le> n * b" and "(n - 1) * b < t"
proof -
  have b: "0 < b" using assms by simp
  have m: "b * ((- t) div b) + (- t) mod b = - t" by (rule mult_div_mod_eq)
  have 1: "b * ((- t) div b) \<le> - t"
    using m pos_mod_sign[OF b, of "- t"] by linarith
  have 2: "- t < b * ((- t) div b) + b"
    using m pos_mod_bound[OF b, of "- t"] by linarith
  show "t \<le> n * b" using 1 by (simp add: n_def algebra_simps)
  show "(n - 1) * b < t" using 2 by (simp add: n_def algebra_simps)
qed

lemma batches_nonneg:
  fixes t b :: int
  assumes "0 \<le> t" "1 \<le> b"
  shows "0 \<le> - ((- t) div b)"
proof -
  have "0 \<le> - ((- t) div b) * b"
    using ceil_bounds(1)[OF assms(2), of t] assms(1) by linarith
  with assms(2) show ?thesis by (auto simp: mult_le_0_iff zero_le_mult_iff)
qed

lemma batch_index_below:
  fixes t b :: int
  assumes "1 \<le> b" "0 \<le> q" "q < - ((- t) div b)"
  shows "q * b < t"
proof -
  have "q \<le> - ((- t) div b) - 1" using assms(3) by simp
  then have "q * b \<le> (- ((- t) div b) - 1) * b"
    using assms(1) by (intro mult_right_mono) simp_all
  with ceil_bounds(2)[OF assms(1), of t] show ?thesis by simp
qed

lemma currentBatchSize_bounds:
  fixes t b :: int
  assumes "1 \<le> b" "0 \<le> q" "q < - ((- t) div b)"
  shows "1 \<le> currentBatchSize t b q" and "currentBatchSize t b q \<le> b"
  using batch_index_below[OF assms] assms(1) by (simp_all add: currentBatchSize_def Let_def)

lemma currentBatchSize_last:
  fixes t b :: int
  assumes "1 \<le> b"
  shows "currentBatchSize t b (- ((- t) div b) - 1) = t - (- ((- t) div b) - 1) * b"
  using ceil_bounds(1)[OF assms, of t] by (simp add: currentBatchSize_def Let_def algebra_simps)

lemma sum_currentBatchSize:
  fixes t b :: int
  assumes "1 \<le> b" "0 \<le> t" "int j \<le> - ((- t) div b)"
  shows "(\<Sum>q\<leftarrow>batch_range (int j). currentBatchSize t b q) = min t (int j * b)"
  using assms(3)
proof (induction j)
  case 0
  then show ?case using assms(2) by (simp add: batch_range_def)
next
  case (Suc j)
  have lt: "int j < - ((- t) div b)" using Suc.prems by simp
  have below: "int j * b < t" by (rule batch_index_below[OF assms(1) _ lt]) simp
  have "(\<Sum>q\<leftarrow>batch_range (int (Suc j)). currentBatchSize t b q) =
        min t (int j * b) + currentBatchSize t b (int j)"
    using Suc.IH lt batch_range_step[of "int j"] by (simp add: add.commute)
  also have "\<dots> = min t (int (Suc j) * b)"
    using below by (simp add: currentBatchSize_def Let_def algebra_simps min_def)
  finally show ?case .
qed

lemma sum_currentBatchSize_total:
  fixes t b :: int
  assumes "1 \<le> b" "0 \<le> t"
  shows "(\<Sum>q\<leftarrow>batch_range (- ((- t) div b)). currentBatchSize t b q) = t"
proof -
  let ?n = "- ((- t) div b)"
  have n: "0 \<le> ?n" by (rule batches_nonneg[OF assms(2,1)])
  then have "int (nat ?n) = ?n" by simp
  with sum_currentBatchSize[OF assms, of "nat ?n"]
  have "(\<Sum>q\<leftarrow>batch_range ?n. currentBatchSize t b q) = min t (?n * b)" by simp
  with ceil_bounds(1)[OF assms(1), of t] show ?thesis by simp
qed

lemma set_batch_range: "q \<in> set (batch_range n) \<longleftrightarrow> 0 \<le> q \<and> q < n"
  by (auto simp: batch_range_def image_iff intro: bexI[of _ "nat q"])

text \<open>The counts of one batch.\<close>

lemma generate_Inl_pos: "generate w cfg k s = Inl e \<Longrightarrow> 0 < s"
  by (auto simp: generate_def split: option.splits if_splits)

lemma generate_length: "generate w cfg k s = Inr users \<Longrightarrow> length users = nat s"
  by (auto simp: generate_def generateUserBatch_def split: option.splits if_splits)

lemma generate_no_fault:
  "generator_throws w k = None \<Longrightarrow> \<exists>users. generate w cfg k s = Inr users"
  by (simp add: generate_def)

lemma batch_delta_nonneg:
  "0 \<le> fst (batch_delta res w cfg k s)" "0 \<le> snd (batch_delta res w cfg k s)"
  by (auto simp: batch_delta_def split: sum.splits dest: generate_Inl_pos)

lemma batch_delta_sum:
  assumes "\<And>k users. length (res k users) = length users"
    and "generator_throws w k = None" and "0 \<le> s"
  shows "fst (batch_delta res w cfg k s) + snd (batch_delta res w cfg k s) = s"
proof -
  from generate_no_fault[OF assms(2)] obtain users where u: "generate w cfg k s = Inr users"
    by blast
  have "int (successes (res k users)) + int (failures (res k users)) = int (length users)"
    using successes_failures[of "res k users"] assms(1)[of k users] by linarith
  with u generate_length[OF u] assms(3) show ?thesis by (simp add: batch_delta_def)
qed

lemma batch_delta_fault:
  assumes "generator_throws w k = Some e" and "0 < s"
  shows "batch_delta res w cfg k s = (0, s)"
  using assms by (simp add: batch_delta_def generate_def)


section \<open>The concurrent seeder\<close>

lemma pending_simps:
  "pending_ok w None = 0"
  "pending_ok w (Some (Completing k)) = 0"
  "pending_ok w (Some (Awaiting k users)) = int (successes (allSettled w k 0 users))"
  "pending_err w None = 0"
  "pending_err w (Some (Completing k)) = 0"
  "pending_err w (Some (Awaiting k users)) = int (failures (allSettled w k 0 users))"
  by (simp_all add: pending_ok_def pending_err_def)

lemma sum_list_update_int:
  fixes f :: "'a \<Rightarrow> int"
  shows "j < length xs \<Longrightarrow> (\<Sum>x\<leftarrow>xs[j := y]. f x) = (\<Sum>x\<leftarrow>xs. f x) - f (xs ! j) + f y"
  by (induction xs arbitrary: j) (auto split: nat.splits)

lemma sum_list_update_mset:
  fixes f :: "'a \<Rightarrow> 'b multiset"
  shows "j < length xs \<Longrightarrow> (\<Sum>x\<leftarrow>xs[j := y]. f x) + f (xs ! j) = (\<Sum>x\<leftarrow>xs. f x) + f y"
  by (induction xs arbitrary: j) (auto split: nat.splits)

lemma findIndex_null_free:
  "0 < availableSlots sem \<Longrightarrow> findIndex_null sem < length sem \<and> sem ! findIndex_null sem = None"
  by (induction sem) (auto simp: availableSlots_def)

lemma sum_list_replicate_zero: "sum_list (replicate n (0::'a::monoid_add)) = 0"
  by (induction n) auto

lemma sum_list_replicate_empty: "sum_list (replicate n ({#}::'a multiset)) = {#}"
  using sum_list_replicate_zero[where 'a = "'a multiset"] by simp

lemma inv_start: "seedUsers_start cfg = Inr st0 \<Longrightarrow> inv w cfg st0"
  by (auto simp: seedUsers_start_def inv_def Let_def batch_range_def occupant_def pending_ok_def
      pending_err_def sum_list_replicate_zero sum_list_replicate_empty split: if_splits)

lemma inv_finally:
  assumes "inv w cfg st"
  shows "inv w cfg (finally_callback j st)"
proof (cases "j < length (semaphore st) \<and> (\<exists>k. semaphore st ! j = Some (Completing k))")
  case False
  then have "finally_callback j st = st"
    by (auto simp: finally_callback_def split: option.splits promise.splits)
  with assms show ?thesis by simp
next
  case True
  then obtain k where j: "j < length (semaphore st)" and k: "semaphore st ! j = Some (Completing k)"
    by blast
  let ?sem = "(semaphore st)[j := None]"
  have st': "finally_callback j st = st\<lparr>in_flight := remove1 k (in_flight st), semaphore := ?sem\<rparr>"
    using j k by (simp add: finally_callback_def)
  have occ: "(\<Sum>slot\<leftarrow>?sem. occupant slot) + {#k#} = (\<Sum>slot\<leftarrow>semaphore st. occupant slot)"
    using sum_list_update_mset[OF j, of occupant None] k by (simp add: occupant_def)
  have fl: "mset (in_flight st) = (\<Sum>slot\<leftarrow>semaphore st. occupant slot)"
    using assms by (simp add: inv_def)
  have "mset (remove1 k (in_flight st)) = (\<Sum>slot\<leftarrow>?sem. occupant slot)"
    using occ fl by (metis add_mset_add_single add_mset_remove_trivial mset_remove1)
  moreover have "(\<Sum>slot\<leftarrow>?sem. pending_ok w slot) = (\<Sum>slot\<leftarrow>semaphore st. pending_ok w slot)"
    using sum_list_update_int[OF j, of "pending_ok w" None] k by (simp add: pending_ok_def)
  moreover have "(\<Sum>slot\<leftarrow>?sem. pending_err w slot) = (\<Sum>slot\<leftarrow>semaphore st. pending_err w slot)"
    using sum_list_update_int[OF j, of "pending_err w" None] k by (simp add: pending_err_def)
  moreover have "(\<forall>slot \<in> set (semaphore st). slot = None) \<Longrightarrow> (\<forall>slot \<in> set ?sem. slot = None)"
    using set_update_subset_insert[of "semaphore st" j None] by auto
  ultimately show ?thesis
    using assms unfolding st' inv_def by simp
qed

lemma inv_all_settled:
  assumes "inv w cfg st"
  shows "inv w cfg (all_settled w j st)"
proof (cases "j < length (semaphore st) \<and> (\<exists>k users. semaphore st ! j = Some (Awaiting k users))")
  case False
  then have "all_settled w j st = st"
    by (auto simp: all_settled_def split: option.splits promise.splits)
  with assms show ?thesis by simp
next
  case True
  then obtain k users where j: "j < length (semaphore st)"
    and k: "semaphore st ! j = Some (Awaiting k users)"
    by blast
  let ?sem = "(semaphore st)[j := Some (Completing k)]"
  let ?rs = "allSettled w k 0 users"
  have st': "all_settled w j st = (tally ?rs st)\<lparr>semaphore := ?sem\<rparr>"
    using j k by (simp add: all_settled_def)
  have "semaphore st ! j \<in> set (semaphore st)" using j by simp
  with k have notfin: "phase st \<noteq> Finished"
    using assms by (auto simp: inv_def)
  have occ: "(\<Sum>slot\<leftarrow>?sem. occupant slot) = (\<Sum>slot\<leftarrow>semaphore st. occupant slot)"
    using sum_list_update_mset[OF j, of occupant "Some (Completing k)"] k
    by (simp add: occupant_def)
  have ok: "(\<Sum>slot\<leftarrow>?sem. pending_ok w slot) =
            (\<Sum>slot\<leftarrow>semaphore st. pending_ok w slot) - int (successes ?rs)"
    using sum_list_update_int[OF j, of "pending_ok w" "Some (Completing k)"] k
    by (simp add: pending_ok_def)
  have err: "(\<Sum>slot\<leftarrow>?sem. pending_err w slot) =
            (\<Sum>slot\<leftarrow>semaphore st. pending_err w slot) - int (failures ?rs)"
    using sum_list_update_int[OF j, of "pending_err w" "Some (Completing k)"] k
    by (simp add: pending_err_def)
  show ?thesis
    using assms notfin unfolding st' inv_def by (simp add: occ ok err tally_def)
qed

lemma inv_dispatch:
  assumes i: "inv w cfg st" and lt: "js_less (currentBatch st) (batches_of cfg)"
    and free: "0 < availableSlots (semaphore st)" and run: "phase st = Running"
  shows "inv w cfg (dispatch w cfg st)"
proof -
  let ?k = "currentBatch st"
  let ?s = "size_of cfg ?k"
  let ?j = "findIndex_null (semaphore st)"
  have j: "?j < length (semaphore st)" and jn: "semaphore st ! ?j = None"
    using findIndex_null_free[OF free] by simp_all
  have k0: "0 \<le> ?k" using i by (simp add: inv_def)
  have range: "batch_range (?k + 1) = batch_range ?k @ [?k]" by (rule batch_range_step[OF k0])
  have bound: "\<forall>n. batches_of cfg = Num n \<longrightarrow> ?k + 1 \<le> max 0 n"
    using lt by auto
  have notnan: "\<not> (batches_of cfg = NaN \<or> batches_of cfg = NegInfinity)"
    using lt by auto
  have occ: "\<And>p. (\<Sum>slot\<leftarrow>(semaphore st)[?j := Some p]. occupant slot) =
                 (\<Sum>slot\<leftarrow>semaphore st. occupant slot) + {#batch_of p#}"
    using sum_list_update_mset[OF j, of occupant] jn by (simp add: occupant_def)
  have ok: "\<And>p. (\<Sum>slot\<leftarrow>(semaphore st)[?j := Some p]. pending_ok w slot) =
                 (\<Sum>slot\<leftarrow>semaphore st. pending_ok w slot) + pending_ok w (Some p)"
    using sum_list_update_int[OF j, of "pending_ok w"] jn by (simp add: pending_ok_def)
  have err: "\<And>p. (\<Sum>slot\<leftarrow>(semaphore st)[?j := Some p]. pending_err w slot) =
                 (\<Sum>slot\<leftarrow>semaphore st. pending_err w slot) + pending_err w (Some p)"
    using sum_list_update_int[OF j, of "pending_err w"] jn by (simp add: pending_err_def)
  show ?thesis
  proof (cases "generate w cfg ?k ?s")
    case (Inr users)
    have d: "dispatch w cfg st =
        st\<lparr>currentBatch := ?k + 1, calls := calls st @ [(?k, ?s)],
           in_flight := in_flight st @ [?k], generated := generated st @ users,
           semaphore := (semaphore st)[?j := Some (Awaiting ?k users)]\<rparr>"
      using Inr by (simp add: dispatch_def processBatch_start_def Let_def size_of_def)
    have delta: "delta_of w cfg ?k =
        (int (successes (allSettled w ?k 0 users)), int (failures (allSettled w ?k 0 users)))"
      using Inr by (simp add: delta_of_def batch_delta_def)
    have bu: "batch_users w cfg ?k ?s = users" using Inr by (simp add: batch_users_def)
    show ?thesis
      using i run bound notnan unfolding d inv_def
      by (simp add: range occ ok err delta bu pending_simps)
  next
    case (Inl e)
    have d: "dispatch w cfg st =
        st\<lparr>currentBatch := ?k + 1, calls := calls st @ [(?k, ?s)],
           in_flight := in_flight st @ [?k], errors := errors st + ?s,
           semaphore := (semaphore st)[?j := Some (Completing ?k)]\<rparr>"
      using Inl by (simp add: dispatch_def processBatch_start_def Let_def size_of_def)
    have delta: "delta_of w cfg ?k = (0, ?s)"
      using Inl by (simp add: delta_of_def batch_delta_def)
    have bu: "batch_users w cfg ?k ?s = []" using Inl by (simp add: batch_users_def)
    show ?thesis
      using i run bound notnan unfolding d inv_def
      by (simp add: range occ ok err delta bu pending_simps)
  qed
qed

lemma inv_main_loop:
  assumes i: "inv w cfg st"
  shows "inv w cfg (main_loop w cfg st)"
proof (cases "phase st")
  case Running
  show ?thesis
  proof (cases "js_less (currentBatch st) (batches_of cfg)")
    case True
    show ?thesis
    proof (cases "0 < availableSlots (semaphore st)")
      case free: True
      have "main_loop w cfg st = dispatch w cfg st"
        using Running True free by (simp add: main_loop_def batches_of_def)
      with inv_dispatch[OF i True free Running] show ?thesis by simp
    next
      case False
      then have "main_loop w cfg st = st"
        using Running True by (simp add: main_loop_def batches_of_def)
      with i show ?thesis by simp
    qed
  next
    case False
    then have "main_loop w cfg st = st\<lparr>phase := Draining\<rparr>"
      using Running by (simp add: main_loop_def batches_of_def)
    with i False show ?thesis by (simp add: inv_def)
  qed
next
  case Draining
  show ?thesis
  proof (cases "filter (\<lambda>slot. slot \<noteq> None) (semaphore st) = []")
    case True
    then have none: "\<forall>slot \<in> set (semaphore st). slot = None"
      by (simp add: filter_empty_conv)
    have "main_loop w cfg st = st\<lparr>phase := Finished\<rparr>"
      using Draining True by (simp add: main_loop_def)
    with i none Draining show ?thesis by (simp add: inv_def)
  next
    case False
    then have "main_loop w cfg st = st"
      using Draining by (simp add: main_loop_def)
    with i show ?thesis by simp
  qed
next
  case Finished
  then have "main_loop w cfg st = st" by (simp add: main_loop_def)
  with i show ?thesis by simp
qed

lemma inv_step: "inv w cfg st \<Longrightarrow> inv w cfg (step w cfg st ev)"
  by (cases ev) (simp_all add: inv_main_loop inv_all_settled inv_finally)

lemma inv_run: "inv w cfg st \<Longrightarrow> inv w cfg (run w cfg schedule st)"
  unfolding run_def by (induction schedule arbitrary: st) (simp_all add: inv_step)

lemma reachable_inv: "reachable w cfg st \<Longrightarrow> inv w cfg st"
  by (auto simp: reachable_def intro: inv_run inv_start)


section \<open>The final state of a run\<close>

lemma batches_of_pos:
  "seeding_batchSize cfg \<noteq> 0 \<Longrightarrow>
   batches_of cfg = Num (- ((- seeding_totalUsers cfg) div seeding_batchSize cfg))"
  by (simp add: batches_of_def Math_ceil_div_eq)

lemma seedUsers_seq_final:
  fixes pb :: "int \<Rightarrow> int \<Rightarrow> seeder \<Rightarrow> seeder"
  assumes p: "\<And>k s st. processedUsers (pb k s st) = processedUsers st + fst (d k s)"
    and e: "\<And>k s st. errors (pb k s st) = errors st + snd (d k s)"
    and c: "\<And>k s st. calls (pb k s st) = calls st @ [(k, s)]"
    and g: "\<And>k s st. generated (pb k s st) = generated st @ u k s"
    and fin: "Math_ceil_div t b \<noteq> PosInfinity"
  defines "r \<equiv> (case Math_ceil_div t b of Num n \<Rightarrow> batch_range n | _ \<Rightarrow> [])"
  shows "\<exists>st. seedUsers_seq pb t b = Some st \<and>
           processedUsers st = (\<Sum>q\<leftarrow>r. fst (d q (currentBatchSize t b q))) \<and>
           errors st = (\<Sum>q\<leftarrow>r. snd (d q (currentBatchSize t b q))) \<and>
           calls st = map (\<lambda>q. (q, currentBatchSize t b q)) r \<and>
           generated st = concat (map (\<lambda>q. u q (currentBatchSize t b q)) r)"
proof (cases "Math_ceil_div t b")
  case (Num n)
  from for_batches_char[of pb d u t b n new_seeder, OF p e c g]
  show ?thesis by (simp add: seedUsers_seq_def Num r_def new_seeder_def)
next
  case PosInfinity
  with fin show ?thesis by simp
next
  case NegInfinity
  then show ?thesis by (simp add: seedUsers_seq_def r_def new_seeder_def)
next
  case NaN
  then show ?thesis by (simp add: seedUsers_seq_def r_def new_seeder_def)
qed

lemma BatchSeeder_final:
  assumes "batches_of cfg \<noteq> PosInfinity"
  shows "\<exists>st. BatchSeeder_seedUsers w cfg = Some st \<and>
           processedUsers st = (\<Sum>q\<leftarrow>final_range cfg. fst (delta_of w cfg q)) \<and>
           errors st = (\<Sum>q\<leftarrow>final_range cfg. snd (delta_of w cfg q)) \<and>
           calls st = map (\<lambda>q. (q, size_of cfg q)) (final_range cfg) \<and>
           generated st = concat (map (\<lambda>q. batch_users w cfg q (size_of cfg q)) (final_range cfg))"
  using seedUsers_seq_final[of "BatchSeeder_processBatch w cfg"
      "batch_delta (\<lambda>k. allSettled w k 0) w cfg" "batch_users w cfg"
      "seeding_totalUsers cfg" "seeding_batchSize cfg",
      OF BatchSeeder_processBatch_delta] assms
  unfolding BatchSeeder_seedUsers_def final_range_def batches_of_def delta_of_def size_of_def
  by simp

lemma seedUsers_seq_None: "Math_ceil_div t b = PosInfinity \<Longrightarrow> seedUsers_seq pb t b = None"
  by (simp add: seedUsers_seq_def)

lemma generate_conservative_config:
  "generate w (conservative_config cfg) = generate w cfg"
  by (intro ext) (simp add: generate_def conservative_config_def split: option.splits)

lemma ConservativeSeeder_final:
  assumes "batches_of (conservative_config cfg) \<noteq> PosInfinity"
  defines "c \<equiv> conservative_config cfg"
  shows "\<exists>st. ConservativeSeeder_seedUsers w cfg = Some st \<and>
           processedUsers st = (\<Sum>q\<leftarrow>final_range c. fst (retry_delta_of w c q)) \<and>
           errors st = (\<Sum>q\<leftarrow>final_range c. snd (retry_delta_of w c q)) \<and>
           calls st = map (\<lambda>q. (q, size_of c q)) (final_range c) \<and>
           generated st = concat (map (\<lambda>q. batch_users w c q (size_of c q)) (final_range c))"
proof -
  have bd: "batch_delta res w c = batch_delta res w cfg" for res
    by (intro ext) (simp add: batch_delta_def c_def generate_conservative_config)
  have bu: "batch_users w c = batch_users w cfg"
    by (intro ext) (simp add: batch_users_def c_def generate_conservative_config)
  have t: "seeding_totalUsers c = seeding_totalUsers cfg"
    and b: "seeding_batchSize c = min (seeding_batchSize cfg) 100"
    by (simp_all add: c_def conservative_config_def)
  show ?thesis
    using seedUsers_seq_final[of "processBatchConservative w cfg"
        "batch_delta (\<lambda>k. retrySettled w k 0) w cfg" "batch_users w cfg"
        "seeding_totalUsers cfg" "min (seeding_batchSize cfg) 100",
        OF processBatchConservative_delta] assms(1)
    unfolding ConservativeSeeder_seedUsers_def final_range_def batches_of_def retry_delta_of_def
      size_of_def bd bu t b c_def[symmetric] Let_def
    by simp
qed

lemma AuthUserSeeder_final:
  assumes r: "reachable w cfg st" and f: "phase st = Finished"
  shows "processedUsers st = (\<Sum>q\<leftarrow>final_range cfg. fst (delta_of w cfg q)) \<and>
         errors st = (\<Sum>q\<leftarrow>final_range cfg. snd (delta_of w cfg q)) \<and>
         calls st = map (\<lambda>q. (q, size_of cfg q)) (final_range cfg) \<and>
         generated st = concat (map (\<lambda>q. batch_users w cfg q (size_of cfg q)) (final_range cfg)) \<and>
         in_flight st = [] \<and> batches_of cfg \<noteq> PosInfinity"
proof -
  have i: "inv w cfg st" by (rule reachable_inv[OF r])
  have none: "\<forall>slot \<in> set (semaphore st). slot = None" using i f by (simp add: inv_def)
  then have sem: "semaphore st = replicate (length (semaphore st)) None"
    by (simp add: replicate_length_same)
  have z1: "(\<Sum>slot\<leftarrow>semaphore st. pending_ok w slot) = 0"
    by (subst sem) (simp add: pending_simps sum_list_replicate_zero)
  have z2: "(\<Sum>slot\<leftarrow>semaphore st. pending_err w slot) = 0"
    by (subst sem) (simp add: pending_simps sum_list_replicate_zero)
  have z3: "(\<Sum>slot\<leftarrow>semaphore st. occupant slot) = {#}"
    by (subst sem) (simp add: occupant_def sum_list_replicate_empty)
  have nl: "\<not> js_less (currentBatch st) (batches_of cfg)" using i f by (simp add: inv_def)
  have rng: "batch_range (currentBatch st) = final_range cfg \<and> batches_of cfg \<noteq> PosInfinity"
  proof (cases "batches_of cfg")
    case (Num n)
    with i nl have "currentBatch st = max 0 n" by (auto simp: inv_def)
    then show ?thesis by (simp add: final_range_def Num batch_range_def max_def)
  next
    case PosInfinity
    with nl show ?thesis by simp
  next
    case NegInfinity
    with i have "currentBatch st = 0" by (simp add: inv_def)
    then show ?thesis by (simp add: final_range_def NegInfinity batch_range_def)
  next
    case NaN
    with i have "currentBatch st = 0" by (simp add: inv_def)
    then show ?thesis by (simp add: final_range_def NaN batch_range_def)
  qed
  show ?thesis
    using i z1 z2 z3 rng unfolding inv_def by simp
qed

section \<open>Monotonicity of the counters\<close>

lemma tally_mono:
  "processedUsers st \<le> processedUsers (tally rs st) \<and> errors st \<le> errors (tally rs st)"
  by (simp add: tally_simps)

lemma chunk_loop_mono:
  "processedUsers st \<le> processedUsers (chunk_loop w k users i st) \<and>
   errors st \<le> errors (chunk_loop w k users i st)"
  by (simp add: chunk_loop_counts)

lemma record_loop_mono:
  "processedUsers st \<le> processedUsers (record_loop w k i us st) \<and>
   errors st \<le> errors (record_loop w k i us st)"
  by (simp add: record_loop_counts)

lemma BatchSeeder_processBatch_mono:
  "processedUsers st \<le> processedUsers (BatchSeeder_processBatch w cfg k s st) \<and>
   errors st \<le> errors (BatchSeeder_processBatch w cfg k s st)"
  using batch_delta_nonneg[of "\<lambda>k. allSettled w k 0" w cfg k s]
  by (simp add: BatchSeeder_processBatch_delta)

lemma processBatchConservative_mono:
  "processedUsers st \<le> processedUsers (processBatchConservative w cfg k s st) \<and>
   errors st \<le> errors (processBatchConservative w cfg k s st)"
  using batch_delta_nonneg[of "\<lambda>k. retrySettled w k 0" w cfg k s]
  by (simp add: processBatchConservative_delta)

lemma for_batches_mono:
  fixes st :: seeder
  assumes "\<And>k s st. processedUsers st \<le> processedUsers (pb k s st) \<and> errors st \<le> errors (pb k s st)"
  shows "processedUsers st \<le> processedUsers (for_batches pb t b n i st) \<and>
         errors st \<le> errors (for_batches pb t b n i st)"
  using assms
proof (induction pb t b n i st rule: for_batches.induct)
  case (1 pb t b n i st)
  show ?case
  proof (cases "i < n")
    case True
    have "processedUsers st \<le> processedUsers (pb i (currentBatchSize t b i) st) \<and>
          errors st \<le> errors (pb i (currentBatchSize t b i) st)"
      using "1.prems" by blast
    moreover have "processedUsers (pb i (currentBatchSize t b i) st) \<le>
          processedUsers (for_batches pb t b n (i + 1) (pb i (currentBatchSize t b i) st)) \<and>
        errors (pb i (currentBatchSize t b i) st) \<le>
          errors (for_batches pb t b n (i + 1) (pb i (currentBatchSize t b i) st))"
      using "1.IH"[OF True] "1.prems" by blast
    ultimately show ?thesis by (simp add: for_batches_step[OF True])
  next
    case False
    then show ?thesis by (simp add: for_batches_done)
  qed
qed

lemma dispatch_mono:
  "processedUsers st \<le> processedUsers (dispatch w cfg st) \<and> errors st \<le> errors (dispatch w cfg st)"
  by (auto simp: dispatch_def processBatch_start_def Let_def split: sum.splits prod.splits
      dest: generate_Inl_pos)

lemma step_mono:
  "processedUsers st \<le> processedUsers (step w cfg st ev) \<and> errors st \<le> errors (step w cfg st ev)"
proof (cases ev)
  case MainLoop
  then show ?thesis
    using dispatch_mono[of st w cfg] by (simp add: main_loop_def Let_def split: phase.splits)
next
  case (AllSettled j)
  then show ?thesis
    by (simp add: all_settled_def tally_simps split: option.splits promise.splits)
next
  case (Finally j)
  then show ?thesis
    by (simp add: finally_callback_def split: option.splits promise.splits)
qed

lemma run_append: "run w cfg (s1 @ s2) st = run w cfg s2 (run w cfg s1 st)"
  by (simp add: run_def)

lemma run_mono:
  "processedUsers st \<le> processedUsers (run w cfg schedule st) \<and>
   errors st \<le> errors (run w cfg schedule st)"
proof (induction schedule arbitrary: st)
  case Nil
  then show ?case by (simp add: run_def)
next
  case (Cons ev schedule)
  have "run w cfg (ev # schedule) st = run w cfg schedule (step w cfg st ev)"
    by (simp add: run_def)
  with Cons[of "step w cfg st ev"] step_mono[of st w cfg ev] show ?case by simp
qed


section \<open>Totals of a run\<close>

lemma size_of_eq:
  "size_of cfg q =
     min (seeding_batchSize cfg) (seeding_totalUsers cfg - q * seeding_batchSize cfg)"
  by (simp add: size_of_def currentBatchSize_def Let_def)

lemma final_range_eq:
  "seeding_batchSize cfg \<noteq> 0 \<Longrightarrow>
   final_range cfg =
     batch_range \<lceil>(of_int (seeding_totalUsers cfg) :: rat) / of_int (seeding_batchSize cfg)\<rceil>"
  by (simp add: final_range_def batches_of_def Math_ceil_div_def)

lemma final_range_div:
  "seeding_batchSize cfg \<noteq> 0 \<Longrightarrow>
   final_range cfg = batch_range (- ((- seeding_totalUsers cfg) div seeding_batchSize cfg))"
  by (simp add: final_range_def batches_of_pos)

lemma batches_finite: "seeding_batchSize cfg \<noteq> 0 \<Longrightarrow> batches_of cfg \<noteq> PosInfinity"
  by (simp add: batches_of_pos)

lemma size_of_pos:
  assumes "1 \<le> seeding_batchSize cfg" "q \<in> set (final_range cfg)"
  shows "1 \<le> size_of cfg q" "size_of cfg q \<le> seeding_batchSize cfg"
proof -
  have q: "0 \<le> q" "q < - ((- seeding_totalUsers cfg) div seeding_batchSize cfg)"
    using assms by (simp_all add: final_range_div set_batch_range)
  show "1 \<le> size_of cfg q" "size_of cfg q \<le> seeding_batchSize cfg"
    using currentBatchSize_bounds[OF assms(1) q] by (simp_all add: size_of_def)
qed

lemma sum_size_of:
  assumes "1 \<le> seeding_batchSize cfg" "0 \<le> seeding_totalUsers cfg"
  shows "(\<Sum>q\<leftarrow>final_range cfg. size_of cfg q) = seeding_totalUsers cfg"
proof -
  have "seeding_batchSize cfg \<noteq> 0" using assms(1) by simp
  then show ?thesis
    using sum_currentBatchSize_total[OF assms]
    by (simp add: final_range_div size_of_def[abs_def])
qed

lemma total_conserved:
  assumes b: "1 \<le> seeding_batchSize cfg" and t: "0 \<le> seeding_totalUsers cfg"
    and len: "\<And>k users. length (res k users) = length users"
    and nf: "\<forall>k. generator_throws w k = None"
  shows "(\<Sum>q\<leftarrow>final_range cfg. fst (batch_delta res w cfg q (size_of cfg q))) +
         (\<Sum>q\<leftarrow>final_range cfg. snd (batch_delta res w cfg q (size_of cfg q))) =
         seeding_totalUsers cfg"
proof -
  have "(\<Sum>q\<leftarrow>final_range cfg. fst (batch_delta res w cfg q (size_of cfg q))) +
        (\<Sum>q\<leftarrow>final_range cfg. snd (batch_delta res w cfg q (size_of cfg q))) =
        (\<Sum>q\<leftarrow>final_range cfg. fst (batch_delta res w cfg q (size_of cfg q)) +
                                snd (batch_delta res w cfg q (size_of cfg q)))"
    by (simp add: sum_list_addf)
  also have "\<dots> = (\<Sum>q\<leftarrow>final_range cfg. size_of cfg q)"
  proof (rule arg_cong[where f = sum_list], rule map_cong[OF refl])
    fix q assume "q \<in> set (final_range cfg)"
    then have "0 \<le> size_of cfg q" using size_of_pos(1)[OF b] by force
    then show "fst (batch_delta res w cfg q (size_of cfg q)) +
               snd (batch_delta res w cfg q (size_of cfg q)) = size_of cfg q"
      using batch_delta_sum[of res w q "size_of cfg q" cfg] len nf by simp
  qed
  also have "\<dots> = seeding_totalUsers cfg" by (rule sum_size_of[OF b t])
  finally show ?thesis .
qed

text \<open>A creator that never fails.\<close>

lemma failures_all_None: "\<forall>r \<in> set rs. r = None \<Longrightarrow> failures rs = 0"
  by (simp add: failures_def filter_empty_conv)

lemma allSettled_never_fails:
  assumes "\<forall>k i a u. admin_createUser w k i a u = None"
  shows "failures (allSettled w k offset users) = 0"
  by (rule failures_all_None) (auto simp: allSettled_def createUser_def assms)

lemma createUserWithRetry_first_try:
  "remote 1 = None \<Longrightarrow> createUserWithRetry remote = \<lparr>outcome = None, attempts = 1, waits = []\<rparr>"
  unfolding createUserWithRetry_def by (subst retry_loop.simps) simp

lemma retrySettled_never_fails:
  assumes "\<forall>k i a u. admin_createUser w k i a u = None"
  shows "failures (retrySettled w k offset users) = 0"
  by (rule failures_all_None) (auto simp: retrySettled_def assms createUserWithRetry_first_try)

lemma errors_zero:
  assumes f0: "\<And>k users. failures (res k users) = 0"
    and nf: "\<forall>k. generator_throws w k = None"
  shows "(\<Sum>q\<leftarrow>qs. snd (batch_delta res w cfg q (size_of cfg q))) = 0"
proof -
  have "snd (batch_delta res w cfg q s) = 0" for q s
    using generate_no_fault[of w q cfg s] nf f0 by (auto simp: batch_delta_def)
  then show ?thesis by simp
qed

lemma conservative_config_simps:
  "seeding_totalUsers (conservative_config cfg) = seeding_totalUsers cfg"
  "seeding_batchSize (conservative_config cfg) = min (seeding_batchSize cfg) 100"
  by (simp_all add: conservative_config_def)

lemma map_fst_calls:
  "map fst (map (\<lambda>q. (q, f q)) qs) = qs"
  "map (fst \<circ> (\<lambda>q. (q, f q))) qs = qs"
  by (simp_all add: comp_def)

section \<open>The concurrent run can finish\<close>

lemma idle_round:
  assumes "idle (Suc c) j st" and "js_less j (batches_of cfg)"
  shows "idle (Suc c) (j + 1) (run w cfg [MainLoop, AllSettled 0, Finally 0] st)"
proof -
  have ph: "phase st = Running" and cb: "currentBatch st = j"
    and sem: "semaphore st = None # replicate c None"
    using assms(1) by (simp_all add: idle_def)
  let ?s = "currentBatchSize (seeding_totalUsers cfg) (seeding_batchSize cfg) j"
  have ml: "main_loop w cfg st = dispatch w cfg st"
    using ph cb sem assms(2) by (simp add: main_loop_def batches_of_def availableSlots_def)
  show ?thesis
  proof (cases "generate w cfg j ?s")
    case (Inl e)
    then show ?thesis
      using ph cb sem
      by (simp add: run_def ml dispatch_def processBatch_start_def Let_def all_settled_def
          finally_callback_def idle_def)
  next
    case (Inr users)
    then show ?thesis
      using ph cb sem
      by (simp add: run_def ml dispatch_def processBatch_start_def Let_def all_settled_def
          finally_callback_def idle_def tally_def)
  qed
qed

lemma idle_exit:
  assumes "idle c j st" and "\<not> js_less j (batches_of cfg)"
  shows "phase (run w cfg [MainLoop, MainLoop] st) = Finished"
  using assms by (simp add: idle_def run_def main_loop_def batches_of_def)

lemma idle_finishes:
  assumes "idle (Suc c) j st" and "batches_of cfg = Num n"
  shows "\<exists>schedule. phase (run w cfg schedule st) = Finished"
  using assms(1)
proof (induction "nat (n - j)" arbitrary: j st)
  case 0
  then have "\<not> js_less j (batches_of cfg)" using assms(2) by simp
  from idle_exit[OF "0.prems" this] show ?case by blast
next
  case (Suc m)
  then have lt: "js_less j (batches_of cfg)" using assms(2) by simp
  let ?st = "run w cfg [MainLoop, AllSettled 0, Finally 0] st"
  have "idle (Suc c) (j + 1) ?st" by (rule idle_round[OF Suc.prems lt])
  moreover have "m = nat (n - (j + 1))" using Suc.hyps(2) by simp
  ultimately obtain schedule where "phase (run w cfg schedule ?st) = Finished"
    using Suc.hyps(1) by blast
  then have "phase (run w cfg ([MainLoop, AllSettled 0, Finally 0] @ schedule) st) = Finished"
    by (simp only: run_append)
  then show ?case by blast
qed

lemma run_can_finish:
  assumes "1 \<le> seeding_concurrentBatches cfg" "seeding_concurrentBatches cfg \<le> 4294967295"
    and "batches_of cfg \<noteq> PosInfinity"
  shows "\<exists>st. reachable w cfg st \<and> phase st = Finished"
proof -
  obtain c where c: "nat (seeding_concurrentBatches cfg) = Suc c"
    using assms(1) by (cases "nat (seeding_concurrentBatches cfg)") simp_all
  obtain st0 where st0: "seedUsers_start cfg = Inr st0" and i: "idle (Suc c) 0 st0"
    using assms(1,2) c by (simp add: seedUsers_start_def idle_def Let_def)
  have "\<exists>schedule. phase (run w cfg schedule st0) = Finished"
  proof (cases "batches_of cfg")
    case (Num n)
    then show ?thesis by (rule idle_finishes[OF i])
  next
    case PosInfinity
    with assms(3) show ?thesis by simp
  next
    case NegInfinity
    then have "\<not> js_less 0 (batches_of cfg)" by simp
    from idle_exit[OF i this] show ?thesis by blast
  next
    case NaN
    then have "\<not> js_less 0 (batches_of cfg)" by simp
    from idle_exit[OF i this] show ?thesis by blast
  qed
  then show ?thesis using st0 unfolding reachable_def by blast
qed

lemma batches_of_conservative:
  "batches_of (conservative_config cfg) = PosInfinity \<longleftrightarrow> batches_of cfg = PosInfinity"
  by (auto simp: batches_of_def Math_ceil_div_def conservative_config_def min_def)

section \<open>Rounding to a double\<close>

lemma exponent_of_bounds:
  assumes "x \<noteq> 0"
  shows "2 powi (exponent_of x) \<le> \<bar>x\<bar>" and "\<bar>x\<bar> < 2 powi (exponent_of x + 1)"
proof -
  have "2 powi (exponent_of x) \<le> \<bar>x\<bar> \<and> \<bar>x\<bar> < 2 powi (exponent_of x + 1)"
  proof (cases "1 \<le> \<bar>x\<bar>")
    case True
    let ?n = "\<lfloor>\<bar>x\<bar>\<rfloor>"
    have n: "0 < ?n" using True by simp
    have e: "exponent_of x = bitlen ?n - 1" using True by (simp add: exponent_of_def)
    have b1: "1 \<le> bitlen ?n" using n by (simp add: bitlen_alt_def)
    from bitlen_bounds[OF n] have lo: "2 ^ nat (bitlen ?n - 1) \<le> ?n" and hi: "?n < 2 ^ nat (bitlen ?n)"
      by simp_all
    have "(2::rat) powi (bitlen ?n - 1) = of_int (2 ^ nat (bitlen ?n - 1))"
      using b1 by (simp add: power_int_def)
    also have "\<dots> \<le> of_int ?n" using lo by (simp only: of_int_le_iff)
    also have "\<dots> \<le> \<bar>x\<bar>" by simp
    finally have 1: "2 powi (exponent_of x) \<le> \<bar>x\<bar>" by (simp add: e)
    have "?n + 1 \<le> 2 ^ nat (bitlen ?n)" using hi by simp
    then have "(of_int (?n + 1) :: rat) \<le> of_int (2 ^ nat (bitlen ?n))" by (simp only: of_int_le_iff)
    moreover have "\<bar>x\<bar> < of_int (?n + 1)" using floor_correct[of "\<bar>x\<bar>"] by simp
    moreover have "(2::rat) powi (bitlen ?n) = of_int (2 ^ nat (bitlen ?n))"
      using b1 by (simp add: power_int_def)
    ultimately have 2: "\<bar>x\<bar> < 2 powi (exponent_of x + 1)" by (simp add: e)
    from 1 2 show ?thesis ..
  next
    case False
    let ?y = "1 / \<bar>x\<bar>"
    let ?c = "\<lceil>?y\<rceil>"
    let ?j = "bitlen (?c - 1)"
    have x0: "0 < \<bar>x\<bar>" using assms by simp
    have y1: "1 < ?y" using False x0 by simp
    have c: "0 < ?c - 1" using y1 by linarith
    have e: "exponent_of x = - ?j" using False by (simp add: exponent_of_def)
    have j1: "1 \<le> ?j" using c by (simp add: bitlen_alt_def)
    from bitlen_bounds[OF c] have lo: "2 ^ nat (?j - 1) \<le> ?c - 1" and hi: "?c - 1 < 2 ^ nat ?j"
      by simp_all
    have "?c \<le> 2 ^ nat ?j" using hi by simp
    then have cj: "(of_int ?c :: rat) \<le> of_int (2 ^ nat ?j)" by (simp only: of_int_le_iff)
    have "?y \<le> of_int ?c" by (rule le_of_int_ceiling)
    also note cj
    also have "(of_int (2 ^ nat ?j) :: rat) = 2 ^ nat ?j" by simp
    finally have "?y \<le> 2 ^ nat ?j" .
    then have "1 \<le> 2 ^ nat ?j * \<bar>x\<bar>" using x0 by (simp add: field_simps)
    then have "1 / 2 ^ nat ?j \<le> \<bar>x\<bar>" by (simp add: field_simps)
    moreover have "(2::rat) powi (- ?j) = 1 / 2 ^ nat ?j"
      using j1 by (simp add: power_int_def field_simps)
    ultimately have 1: "2 powi (exponent_of x) \<le> \<bar>x\<bar>" by (simp add: e)
    have "(2 ^ nat (?j - 1) :: rat) = of_int (2 ^ nat (?j - 1))" by simp
    also have "\<dots> \<le> of_int (?c - 1)" using lo by (simp only: of_int_le_iff)
    also have "\<dots> < ?y" by linarith
    finally have "2 ^ nat (?j - 1) < ?y" .
    then have "2 ^ nat (?j - 1) * \<bar>x\<bar> < 1" using x0 by (simp add: field_simps)
    then have "\<bar>x\<bar> < 1 / 2 ^ nat (?j - 1)" by (simp add: field_simps)
    moreover have "(2::rat) powi (- ?j + 1) = 1 / 2 ^ nat (?j - 1)"
    proof (cases "?j = 1")
      case True
      then show ?thesis by simp
    next
      case False
      with j1 have "- ?j + 1 < 0" by simp
      then show ?thesis using j1 by (simp add: power_int_def field_simps)
    qed
    ultimately have 2: "\<bar>x\<bar> < 2 powi (exponent_of x + 1)" by (simp add: e)
    from 1 2 show ?thesis ..
  qed
  then show "2 powi (exponent_of x) \<le> \<bar>x\<bar>" and "\<bar>x\<bar> < 2 powi (exponent_of x + 1)" by simp_all
qed


lemma pw_add: "(2::rat) powi (a + b) = 2 powi a * 2 powi b"
  by (simp add: power_int_add)

lemma pw_diff: "(2::rat) powi (a - b) = 2 powi a / 2 powi b"
  by (simp add: power_int_diff)

lemma pw_pos [simp]: "0 < (2::rat) powi a"
  by simp

lemma pw_less_iff: "(2::rat) powi a < 2 powi b \<longleftrightarrow> a < b"
proof
  assume "(2::rat) powi a < 2 powi b"
  show "a < b"
  proof (rule ccontr)
    assume "\<not> a < b"
    then have "b \<le> a" by simp
    then have "(2::rat) powi b \<le> 2 powi a" by (intro power_int_increasing) simp_all
    with \<open>(2::rat) powi a < 2 powi b\<close> show False by simp
  qed
next
  assume "a < b"
  then show "(2::rat) powi a < 2 powi b" by (intro power_int_strict_increasing) simp_all
qed

lemma pw_le_iff: "(2::rat) powi a \<le> 2 powi b \<longleftrightarrow> a \<le> b"
  using pw_less_iff[of b a] by (auto simp: not_less[symmetric])

lemma pw_split52: "(2::rat) powi e = 2 ^ 52 * 2 powi (e - 52)"
proof -
  have "(2::rat) powi e = 2 powi (52 + (e - 52))" by (simp add: algebra_simps)
  also have "\<dots> = 2 powi 52 * 2 powi (e - 52)" by (rule pw_add)
  finally show ?thesis by simp
qed

lemma pw_split53: "(2::rat) powi (e + 1) = 2 ^ 53 * 2 powi (e - 52)"
proof -
  have "(2::rat) powi (e + 1) = 2 powi (53 + (e - 52))" by (simp add: algebra_simps)
  also have "\<dots> = 2 powi 53 * 2 powi (e - 52)" by (rule pw_add)
  finally show ?thesis by simp
qed

lemma exponent_of_eqI:
  assumes "2 powi e \<le> \<bar>x\<bar>" and "\<bar>x\<bar> < 2 powi (e + 1)"
  shows "exponent_of x = e"
proof -
  have "0 < (2::rat) powi e" by simp
  with assms(1) have "0 < \<bar>x\<bar>" by linarith
  then have x: "x \<noteq> 0" by simp
  note b = exponent_of_bounds[OF x]
  have "(2::rat) powi (exponent_of x) < 2 powi (e + 1)" using b(1) assms(2) by simp
  then have 1: "exponent_of x < e + 1" by (simp only: pw_less_iff)
  have "(2::rat) powi e < 2 powi (exponent_of x + 1)" using b(2) assms(1) by simp
  then have 2: "e < exponent_of x + 1" by (simp only: pw_less_iff)
  from 1 2 show ?thesis by simp
qed

lemma exponent_of_mono:
  assumes "x \<noteq> 0" and "\<bar>x\<bar> \<le> \<bar>y\<bar>"
  shows "exponent_of x \<le> exponent_of y"
proof -
  have y: "y \<noteq> 0" using assms by auto
  have "(2::rat) powi (exponent_of x) < 2 powi (exponent_of y + 1)"
    using exponent_of_bounds(1)[OF assms(1)] exponent_of_bounds(2)[OF y] assms(2) by simp
  then show ?thesis by (simp add: pw_less_iff)
qed

lemma round_half_even_of_int [simp]: "round_half_even (of_int n) = n"
  by (simp add: round_half_even_def)

lemma round_half_even_cases:
  "round_half_even x = \<lfloor>x\<rfloor> \<or> round_half_even x = \<lfloor>x\<rfloor> + 1"
  by (simp add: round_half_even_def Let_def)

lemma round_half_even_error: "\<bar>of_int (round_half_even x) - x\<bar> \<le> 1 / 2"
proof -
  have "of_int \<lfloor>x\<rfloor> \<le> x" "x < of_int \<lfloor>x\<rfloor> + 1" by linarith+
  then show ?thesis by (auto simp: round_half_even_def Let_def)
qed

lemma round_half_even_mono:
  assumes "x \<le> y"
  shows "round_half_even x \<le> round_half_even y"
proof (cases "\<lfloor>x\<rfloor> = \<lfloor>y\<rfloor>")
  case True
  with assms show ?thesis by (auto simp: round_half_even_def Let_def)
next
  case False
  with assms have "\<lfloor>x\<rfloor> < \<lfloor>y\<rfloor>" using floor_mono[OF assms] by simp
  moreover have "round_half_even x \<le> \<lfloor>x\<rfloor> + 1" using round_half_even_cases[of x] by auto
  moreover have "\<lfloor>y\<rfloor> \<le> round_half_even y" using round_half_even_cases[of y] by auto
  ultimately show ?thesis by simp
qed

lemma round_half_even_unique:
  assumes "\<bar>x - of_int n\<bar> < 1 / 2"
  shows "round_half_even x = n"
proof -
  have "\<bar>of_int (round_half_even x) - x\<bar> \<le> 1 / 2" by (rule round_half_even_error)
  with assms have "\<bar>(of_int (round_half_even x) :: rat) - of_int n\<bar> < 1" by linarith
  then have "\<bar>(of_int (round_half_even x - n) :: rat)\<bar> < 1" by simp
  then have "\<bar>round_half_even x - n\<bar> < 1" by (simp only: of_int_abs[symmetric] of_int_less_1_iff)
  then show ?thesis by simp
qed

lemma round_double_0 [simp]: "round_double 0 = 0"
  by (simp add: round_double_def)

text \<open>The significand of the rounded value.\<close>

lemma round_double_form:
  assumes "0 < x"
  defines "u \<equiv> (2::rat) powi (exponent_of x - 52)"
  defines "n \<equiv> round_half_even (x / u)"
  shows "round_double x = of_int n * u" and "2 ^ 52 \<le> n" and "n \<le> 2 ^ 53"
    and "\<bar>of_int n - x / u\<bar> \<le> 1 / 2"
proof -
  have x0: "x \<noteq> 0" using assms(1) by simp
  have u: "0 < u" by (simp add: u_def)
  show "round_double x = of_int n * u"
    using x0 by (simp add: round_double_def Let_def u_def n_def)
  have lo: "2 powi (exponent_of x) \<le> x" and hi: "x < 2 powi (exponent_of x + 1)"
    using exponent_of_bounds[OF x0] assms(1) by simp_all
  have "(2::rat) powi (exponent_of x) = 2 powi (52 + (exponent_of x - 52))"
    by (simp add: algebra_simps)
  also have "\<dots> = 2 powi 52 * u" unfolding u_def by (rule pw_add)
  finally have "2 powi (exponent_of x) = 2 ^ 52 * u" by simp
  with lo have "2 ^ 52 * u \<le> x" by simp
  then have "2 ^ 52 \<le> x / u" using u by (simp add: field_simps)
  then have "(of_int (2 ^ 52) :: rat) \<le> x / u" by simp
  from round_half_even_mono[OF this] have "round_half_even (of_int (2 ^ 52)) \<le> n"
    unfolding n_def .
  then show "2 ^ 52 \<le> n" by (simp only: round_half_even_of_int)
  have "(2::rat) powi (exponent_of x + 1) = 2 powi (53 + (exponent_of x - 52))"
    by (simp add: algebra_simps)
  also have "\<dots> = 2 powi 53 * u" unfolding u_def by (rule pw_add)
  finally have "2 powi (exponent_of x + 1) = 2 ^ 53 * u" by simp
  with hi have "x < 2 ^ 53 * u" by simp
  then have "x / u \<le> 2 ^ 53" using u by (simp add: field_simps)
  then have "x / u \<le> (of_int (2 ^ 53) :: rat)" by simp
  from round_half_even_mono[OF this] have "n \<le> round_half_even (of_int (2 ^ 53))"
    unfolding n_def .
  then show "n \<le> 2 ^ 53" by (simp only: round_half_even_of_int)
  show "\<bar>of_int n - x / u\<bar> \<le> 1 / 2" unfolding n_def by (rule round_half_even_error)
qed


lemma round_double_pos:
  assumes "0 < x"
  shows "0 < round_double x"
proof -
  note f = round_double_form[OF assms]
  have "0 < round_half_even (x / 2 powi (exponent_of x - 52))" using f(2) by simp
  then show ?thesis unfolding f(1) by simp
qed

lemma round_double_nonneg: "0 \<le> x \<Longrightarrow> 0 \<le> round_double x"
  using round_double_pos[of x] by (cases "x = 0") (simp_all add: less_le)

lemma round_double_nonpos:
  assumes "x \<le> 0"
  shows "round_double x \<le> 0"
proof (cases "x = 0")
  case True
  then show ?thesis by simp
next
  case False
  let ?u = "(2::rat) powi (exponent_of x - 52)"
  have "x / ?u \<le> of_int 0" using assms by (simp add: divide_nonpos_pos)
  from round_half_even_mono[OF this] have "round_half_even (x / ?u) \<le> 0"
    by (simp only: round_half_even_of_int)
  then have "(of_int (round_half_even (x / ?u)) :: rat) \<le> 0" by simp
  then have "of_int (round_half_even (x / ?u)) * ?u \<le> 0"
    by (intro mult_nonpos_nonneg) simp_all
  then show ?thesis using False by (simp add: round_double_def Let_def)
qed

lemma round_double_error:
  assumes "0 \<le> x"
  shows "\<bar>round_double x - x\<bar> \<le> x / 2 ^ 53"
proof (cases "x = 0")
  case True
  then show ?thesis by simp
next
  case False
  with assms have x: "0 < x" by simp
  let ?u = "(2::rat) powi (exponent_of x - 52)"
  let ?n = "round_half_even (x / ?u)"
  note f = round_double_form[OF x]
  have u: "0 < ?u" by simp
  have "round_double x - x = (of_int ?n - x / ?u) * ?u"
    unfolding f(1) by (simp add: algebra_simps)
  then have "\<bar>round_double x - x\<bar> = \<bar>of_int ?n - x / ?u\<bar> * ?u"
    by (simp add: abs_mult)
  also have "\<dots> \<le> (1 / 2) * ?u" using f(4) by (intro mult_right_mono) simp_all
  finally have 1: "\<bar>round_double x - x\<bar> \<le> ?u / 2" by simp
  have "2 powi (exponent_of x) \<le> x" using exponent_of_bounds(1)[of x] x by simp
  then have "2 ^ 52 * ?u \<le> x" by (simp only: pw_split52[of "exponent_of x"])
  then have "?u / 2 \<le> x / 2 ^ 53" by simp
  with 1 show ?thesis by simp
qed

lemma round_double_upper:
  assumes "0 \<le> x"
  shows "round_double x \<le> x * (1 + 1 / 2 ^ 53)"
proof -
  have "round_double x - x \<le> x / 2 ^ 53" using round_double_error[OF assms] by linarith
  moreover have "x * (1 + 1 / 2 ^ 53) = x + x / 2 ^ 53" by (simp add: algebra_simps)
  ultimately show ?thesis by linarith
qed

lemma round_double_lower:
  assumes "0 \<le> x"
  shows "x * (1 - 1 / 2 ^ 53) \<le> round_double x"
proof -
  have "x - round_double x \<le> x / 2 ^ 53" using round_double_error[OF assms] by linarith
  moreover have "x * (1 - 1 / 2 ^ 53) = x - x / 2 ^ 53" by (simp add: algebra_simps)
  ultimately show ?thesis by linarith
qed

lemma round_double_mono:
  assumes "0 \<le> x" and "x \<le> y"
  shows "round_double x \<le> round_double y"
proof (cases "x = 0")
  case True
  then show ?thesis using round_double_nonneg[of y] assms by simp
next
  case False
  with assms have x: "0 < x" and y: "0 < y" by simp_all
  let ?ux = "(2::rat) powi (exponent_of x - 52)" and ?uy = "(2::rat) powi (exponent_of y - 52)"
  note fx = round_double_form[OF x] and fy = round_double_form[OF y]
  have le: "exponent_of x \<le> exponent_of y"
    using exponent_of_mono[of x y] x y assms(2) by simp
  show ?thesis
  proof (cases "exponent_of x = exponent_of y")
    case True
    have "x / ?ux \<le> y / ?ux" using assms(2) by (simp add: divide_right_mono)
    from round_half_even_mono[OF this]
    have "(of_int (round_half_even (x / ?ux)) :: rat) \<le> of_int (round_half_even (y / ?ux))"
      by (simp only: of_int_le_iff)
    then have "of_int (round_half_even (x / ?ux)) * ?ux \<le> of_int (round_half_even (y / ?ux)) * ?ux"
      by (intro mult_right_mono) simp_all
    then show ?thesis unfolding fx(1) fy(1) True[symmetric] .
  next
    case False
    with le have lt: "exponent_of x + 1 \<le> exponent_of y" by simp
    have "(of_int (round_half_even (x / ?ux)) :: rat) \<le> of_int (2 ^ 53)"
      using fx(3) by (simp only: of_int_le_iff)
    then have "round_double x \<le> 2 ^ 53 * ?ux"
      unfolding fx(1) by (simp add: mult_right_mono)
    also have "2 ^ 53 * ?ux = 2 powi (exponent_of x + 1)" by (rule pw_split53[symmetric])
    also have "\<dots> \<le> 2 powi (exponent_of y)" using lt by (simp only: pw_le_iff)
    also have "\<dots> = 2 ^ 52 * ?uy" by (rule pw_split52)
    also have "\<dots> \<le> round_double y"
    proof -
      have "(of_int (2 ^ 52) :: rat) \<le> of_int (round_half_even (y / ?uy))"
        using fy(2) by (simp only: of_int_le_iff)
      then show ?thesis unfolding fy(1) by (simp add: mult_right_mono)
    qed
    finally show ?thesis .
  qed
qed

lemma round_double_exact:
  assumes "\<bar>n\<bar> < 2 ^ 53"
  shows "round_double (of_int n * 2 powi e) = of_int n * 2 powi e"
proof (cases "n = 0")
  case True
  then show ?thesis by simp
next
  case False
  let ?x = "of_int n * (2::rat) powi e"
  have x0: "?x \<noteq> 0" using False by simp
  have ax: "\<bar>?x\<bar> = of_int \<bar>n\<bar> * 2 powi e" by (simp add: abs_mult)
  have "(of_int \<bar>n\<bar> :: rat) < of_int (2 ^ 53)" using assms by (simp only: of_int_less_iff)
  then have "\<bar>?x\<bar> < 2 ^ 53 * 2 powi e" unfolding ax by (simp add: mult_strict_right_mono)
  also have "2 ^ 53 * (2::rat) powi e = 2 powi 53 * 2 powi e" by simp
  also have "\<dots> = 2 powi (53 + e)" by (rule pw_add[symmetric])
  finally have "2 powi (exponent_of ?x) < (2::rat) powi (53 + e)"
    using exponent_of_bounds(1)[OF x0] by simp
  then have "exponent_of ?x < 53 + e" by (simp only: pw_less_iff)
  then have k: "0 \<le> e - (exponent_of ?x - 52)" by simp
  let ?u = "(2::rat) powi (exponent_of ?x - 52)"
  have "(2::rat) powi e = 2 powi ((e - (exponent_of ?x - 52)) + (exponent_of ?x - 52))" by simp
  also have "\<dots> = 2 powi (e - (exponent_of ?x - 52)) * ?u" by (rule pw_add)
  also have "\<dots> = 2 ^ nat (e - (exponent_of ?x - 52)) * ?u"
    using k by (simp add: power_int_nonneg_exp)
  finally have e: "(2::rat) powi e = 2 ^ nat (e - (exponent_of ?x - 52)) * ?u" .
  have "?x / ?u = of_int n * 2 ^ nat (e - (exponent_of ?x - 52))"
    by (subst e) simp
  also have "\<dots> = of_int (n * 2 ^ nat (e - (exponent_of ?x - 52)))" by simp
  finally have q: "?x / ?u = of_int (n * 2 ^ nat (e - (exponent_of ?x - 52)))" .
  have "round_double ?x = of_int (round_half_even (?x / ?u)) * ?u"
    using x0 by (simp add: round_double_def Let_def)
  also have "\<dots> = (?x / ?u) * ?u" unfolding q by (simp only: round_half_even_of_int)
  also have "\<dots> = ?x" by simp
  finally show ?thesis .
qed

lemma round_double_of_int:
  assumes "\<bar>n\<bar> < 2 ^ 53"
  shows "round_double (of_int n) = of_int n"
  using round_double_exact[OF assms, of 0] by simp

lemma round_double_idem:
  assumes "0 \<le> x"
  shows "round_double (round_double x) = round_double x"
proof (cases "x = 0")
  case True
  then show ?thesis by simp
next
  case False
  with assms have x: "0 < x" by simp
  let ?u = "(2::rat) powi (exponent_of x - 52)"
  let ?n = "round_half_even (x / ?u)"
  note f = round_double_form[OF x]
  show ?thesis
  proof (cases "?n = 2 ^ 53")
    case True
    have "round_double x = 2 powi 53 * ?u" unfolding f(1) True by simp
    also have "\<dots> = 2 powi (52 + (exponent_of x - 51))"
      unfolding pw_add[symmetric] by (simp add: algebra_simps)
    also have "\<dots> = of_int (2 ^ 52) * 2 powi (exponent_of x - 51)"
      unfolding pw_add by simp
    finally have r: "round_double x = of_int (2 ^ 52) * 2 powi (exponent_of x - 51)" .
    show ?thesis unfolding r by (rule round_double_exact) simp
  next
    case False
    with f(2,3) have "\<bar>?n\<bar> < 2 ^ 53" by simp
    from round_double_exact[OF this, of "exponent_of x - 52"] show ?thesis unfolding f(1) .
  qed
qed

lemma is_double_round_double: "0 \<le> x \<Longrightarrow> is_double (round_double x)"
  by (simp add: is_double_def round_double_idem)

lemma is_double_of_int: "\<bar>n\<bar> < 2 ^ 53 \<Longrightarrow> is_double (of_int n)"
  by (simp add: is_double_def round_double_of_int)

text \<open>A positive double is its significand, an integer below \<open>2^53\<close>, times its unit.\<close>

lemma is_double_form:
  assumes "is_double x" and "0 < x"
  shows "\<exists>n. x = of_int n * 2 powi (exponent_of x - 52) \<and> 2 ^ 52 \<le> n \<and> n < 2 ^ 53"
proof -
  let ?u = "(2::rat) powi (exponent_of x - 52)"
  let ?n = "round_half_even (x / ?u)"
  note f = round_double_form[OF assms(2)]
  have x: "x = of_int ?n * ?u" using assms(1) f(1) by (simp add: is_double_def)
  have "x < 2 powi (exponent_of x + 1)" using exponent_of_bounds(2)[of x] assms(2) by simp
  also have "(2::rat) powi (exponent_of x + 1) = 2 ^ 53 * ?u" by (rule pw_split53)
  finally have "x < 2 ^ 53 * ?u" .
  then have "of_int ?n * ?u < 2 ^ 53 * ?u" using x by simp
  then have "(of_int ?n :: rat) < of_int (2 ^ 53)" by simp
  then have "?n < 2 ^ 53" by (simp only: of_int_less_iff)
  with x f(2) show ?thesis by blast
qed


text \<open>Two different positive doubles are at least one unit of the larger apart.\<close>

lemma double_gap:
  assumes "is_double y" and "is_double z" and "0 < y" and "y < z"
  shows "z / 2 ^ 53 \<le> z - y"
proof -
  have z0: "0 < z" using assms(3,4) by simp
  let ?uy = "(2::rat) powi (exponent_of y - 52)" and ?uz = "(2::rat) powi (exponent_of z - 52)"
  obtain ny where ny: "y = of_int ny * ?uy" "2 ^ 52 \<le> ny" "ny < 2 ^ 53"
    using is_double_form[OF assms(1,3)] by blast
  obtain nz where nz: "z = of_int nz * ?uz" "2 ^ 52 \<le> nz" "nz < 2 ^ 53"
    using is_double_form[OF assms(2) z0] by blast
  have le: "exponent_of y \<le> exponent_of z"
    using exponent_of_mono[of y z] assms(3,4) by simp
  show ?thesis
  proof (cases "exponent_of y = exponent_of z")
    case True
    have "of_int ny * ?uz < of_int nz * ?uz" using assms(4) ny(1) nz(1) True by simp
    then have "(of_int ny :: rat) < of_int nz" by simp
    then have "ny + 1 \<le> nz" by simp
    then have "(of_int (ny + 1) :: rat) \<le> of_int nz" by (simp only: of_int_le_iff)
    then have "of_int (ny + 1) * ?uz \<le> of_int nz * ?uz" by (intro mult_right_mono) simp_all
    then have 1: "?uz \<le> z - y" using ny(1) nz(1) True by (simp add: algebra_simps)
    have "(of_int nz :: rat) \<le> of_int (2 ^ 53)" using nz(3) by (simp only: of_int_le_iff)
    then have "of_int nz * ?uz \<le> 2 ^ 53 * ?uz" by (simp add: mult_right_mono)
    then have "z / 2 ^ 53 \<le> ?uz" using nz(1) by simp
    with 1 show ?thesis by simp
  next
    case False
    with le have lt: "exponent_of y + 1 \<le> exponent_of z" by simp
    have "ny \<le> 2 ^ 53 - 1" using ny(3) by simp
    then have "(of_int ny :: rat) \<le> of_int (2 ^ 53 - 1)" by (simp only: of_int_le_iff)
    then have "of_int ny * ?uy \<le> of_int (2 ^ 53 - 1) * ?uy" by (intro mult_right_mono) simp_all
    then have y: "y \<le> (2 ^ 53 - 1) * ?uy" using ny(1) by simp
    have "2 ^ 53 * ?uy = 2 powi (exponent_of y + 1)" by (rule pw_split53[symmetric])
    also have "\<dots> \<le> 2 powi (exponent_of z)" using lt by (simp only: pw_le_iff)
    also have "\<dots> \<le> z" using exponent_of_bounds(1)[of z] z0 by simp
    finally have z: "2 ^ 53 * ?uy \<le> z" .
    have "z - z / 2 ^ 53 = z * (1 - 1 / 2 ^ 53)" by (simp add: algebra_simps)
    moreover have "(2 ^ 53 * ?uy) * (1 - 1 / 2 ^ 53) \<le> z * (1 - 1 / 2 ^ 53)"
      using z by (intro mult_right_mono) simp_all
    moreover have "(2 ^ 53 * ?uy) * (1 - 1 / 2 ^ 53) = (2 ^ 53 - 1) * ?uy"
      by (simp add: algebra_simps)
    ultimately have "y \<le> z - z / 2 ^ 53" using y by linarith
    then show ?thesis by simp
  qed
qed

lemma floor_divide_rat:
  fixes y :: rat
  assumes "0 < k"
  shows "\<lfloor>y / of_int k\<rfloor> = \<lfloor>y\<rfloor> div k"
proof (rule floor_unique)
  have k: "0 < (of_int k :: rat)" using assms by simp
  have "of_int (\<lfloor>y\<rfloor> div k) * (of_int k :: rat) = of_int ((\<lfloor>y\<rfloor> div k) * k)" by simp
  also have "\<dots> \<le> of_int \<lfloor>y\<rfloor>"
  proof -
    have "(\<lfloor>y\<rfloor> div k) * k \<le> \<lfloor>y\<rfloor>"
      using assms div_mult_mod_eq[of "\<lfloor>y\<rfloor>" k] pos_mod_sign[of k "\<lfloor>y\<rfloor>"] by linarith
    then show ?thesis by (simp only: of_int_le_iff)
  qed
  also have "\<dots> \<le> y" by simp
  finally show "of_int (\<lfloor>y\<rfloor> div k) \<le> y / of_int k" using k by (simp add: field_simps)
  have "\<lfloor>y\<rfloor> mod k \<le> k - 1" using assms pos_mod_bound[of k "\<lfloor>y\<rfloor>"] by simp
  moreover have "(\<lfloor>y\<rfloor> div k + 1) * k = (\<lfloor>y\<rfloor> div k) * k + k" by (simp add: algebra_simps)
  ultimately have "\<lfloor>y\<rfloor> + 1 \<le> (\<lfloor>y\<rfloor> div k + 1) * k"
    using div_mult_mod_eq[of "\<lfloor>y\<rfloor>" k] by linarith
  then have "(of_int (\<lfloor>y\<rfloor> + 1) :: rat) \<le> of_int ((\<lfloor>y\<rfloor> div k + 1) * k)"
    by (simp only: of_int_le_iff)
  moreover have "y < of_int (\<lfloor>y\<rfloor> + 1)" using floor_correct[of y] by simp
  ultimately have "y < of_int ((\<lfloor>y\<rfloor> div k + 1) * k)" by linarith
  then have "y < (of_int (\<lfloor>y\<rfloor> div k) + 1) * of_int k" by simp
  then show "y / of_int k < of_int (\<lfloor>y\<rfloor> div k) + 1" using k by (simp add: field_simps)
qed

text \<open>
  Dividing a non-negative double by a positive integer and rounding the quotient does not
  reach the next integer, as long as the integers involved are below \<open>2^53\<close>.
\<close>

lemma floor_round_double_divide:
  assumes d: "is_double y" and y0: "0 \<le> y" and c: "0 < c"
    and small: "(\<lfloor>y / of_int c\<rfloor> + 1) * c < 2 ^ 53"
  shows "\<lfloor>round_double (y / of_int c)\<rfloor> = \<lfloor>y / of_int c\<rfloor>"
proof (rule floor_unique)
  let ?q = "y / of_int c"
  let ?n = "\<lfloor>?q\<rfloor>"
  have cq: "0 < (of_int c :: rat)" using c by simp
  have q0: "0 \<le> ?q" using y0 cq by simp
  have n0: "0 \<le> ?n" using q0 by simp
  have "(?n + 1) * 1 \<le> (?n + 1) * c" using c n0 by (intro mult_left_mono) simp_all
  then have "?n + 1 \<le> (?n + 1) * c" by (simp only: mult_1_right)
  with small n0 have n53: "\<bar>?n\<bar> < 2 ^ 53" by linarith
  have "round_double (of_int ?n) \<le> round_double ?q"
    by (rule round_double_mono) (use n0 in simp_all)
  then show "of_int ?n \<le> round_double ?q" by (simp only: round_double_of_int[OF n53])
  show "round_double ?q < of_int ?n + 1"
  proof (rule ccontr)
    assume "\<not> round_double ?q < of_int ?n + 1"
    then have ge: "of_int ?n + 1 \<le> round_double ?q" by simp
    have q1: "?q < of_int ?n + 1" using floor_correct[of ?q] by simp
    have ypos: "0 < y"
    proof (rule ccontr)
      assume "\<not> 0 < y"
      with y0 have "y = 0" by simp
      with ge show False by simp
    qed
    have "round_double ?q - ?q \<le> ?q / 2 ^ 53" using round_double_error[OF q0] by linarith
    with ge have "of_int ?n + 1 - ?q \<le> ?q / 2 ^ 53" by linarith
    also have "\<dots> < (of_int ?n + 1) / 2 ^ 53" using q1 by (simp add: divide_strict_right_mono)
    finally have "(of_int ?n + 1 - ?q) * of_int c < (of_int ?n + 1) / 2 ^ 53 * of_int c"
      using cq by (simp only: mult_strict_right_mono)
    moreover have "(of_int ?n + 1 - ?q) * of_int c = of_int ((?n + 1) * c) - y"
      using cq by (simp add: field_simps)
    moreover have "(of_int ?n + 1) / 2 ^ 53 * (of_int c :: rat) = of_int ((?n + 1) * c) / 2 ^ 53"
      by simp
    ultimately have lt: "of_int ((?n + 1) * c) - y < of_int ((?n + 1) * c) / 2 ^ 53" by simp
    have "0 \<le> (?n + 1) * c" using n0 c by simp
    with small have "\<bar>(?n + 1) * c\<bar> < 2 ^ 53" by simp
    then have dk: "is_double (of_int ((?n + 1) * c))" by (rule is_double_of_int)
    have "y < (of_int ?n + 1) * of_int c" using q1 cq by (simp add: field_simps)
    then have "y < of_int ((?n + 1) * c)" by simp
    from double_gap[OF d dk ypos this] lt show False by simp
  qed
qed

text \<open>The remainder of a non-negative double by a positive integer is a double.\<close>

lemma is_double_remainder:
  assumes d: "is_double x" and x0: "0 \<le> x" and c: "0 < c" "c < 2 ^ 53"
  shows "is_double (x - of_int c * of_int \<lfloor>x / of_int c\<rfloor>)"
proof (cases "x = 0")
  case True
  then show ?thesis by (simp add: is_double_def)
next
  case False
  with x0 have x: "0 < x" by simp
  define j where "j = \<lfloor>x / of_int c\<rfloor>"
  define e where "e = exponent_of x - 52"
  have cq: "0 < (of_int c :: rat)" using c by simp
  from of_int_floor_le[of "x / of_int c"] have "of_int j * of_int c \<le> x"
    unfolding j_def by (simp only: pos_le_divide_eq[OF cq])
  then have r0: "0 \<le> x - of_int c * of_int j" by (simp add: algebra_simps)
  have "x / of_int c < of_int j + 1" unfolding j_def using floor_correct[of "x / of_int c"] by simp
  then have "x < (of_int j + 1) * of_int c" by (simp only: pos_divide_less_eq[OF cq])
  then have rc: "x - of_int c * of_int j < of_int c" by (simp add: algebra_simps)
  have j0: "0 \<le> j" unfolding j_def using x cq by simp
  then have rx: "x - of_int c * of_int j \<le> x" using cq by simp
  obtain n where n: "x = of_int n * 2 powi e" "2 ^ 52 \<le> n" "n < 2 ^ 53"
    using is_double_form[OF d x] unfolding e_def by blast
  have "is_double (x - of_int c * of_int j)"
  proof (cases "0 \<le> e")
    case True
    have xi: "x = of_int (n * 2 ^ nat e)" using n(1) True by (simp add: power_int_nonneg_exp)
    have ri: "x - of_int c * of_int j = of_int (n * 2 ^ nat e - c * j)"
      by (subst xi) simp
    have "(of_int (n * 2 ^ nat e - c * j) :: rat) < of_int c" using rc ri by simp
    then have 1: "n * 2 ^ nat e - c * j < c" by (simp only: of_int_less_iff)
    have "(0 :: rat) \<le> of_int (n * 2 ^ nat e - c * j)" using r0 ri by simp
    then have 2: "0 \<le> n * 2 ^ nat e - c * j" by (simp only: of_int_0_le_iff)
    from 1 2 c(2) have "\<bar>n * 2 ^ nat e - c * j\<bar> < 2 ^ 53" by linarith
    from is_double_of_int[OF this] show ?thesis unfolding ri .
  next
    case False
    then have neg: "e < 0" by simp
    define k where "k = nat (- e)"
    have u: "(2::rat) powi e = 1 / 2 ^ k"
      using neg by (simp add: power_int_def field_simps k_def)
    have "of_int c * of_int j = of_int (c * j * 2 ^ k) * (2::rat) powi e"
      unfolding u by simp
    then have rn: "x - of_int c * of_int j = of_int (n - c * j * 2 ^ k) * 2 powi e"
      by (subst n(1)) (simp add: algebra_simps)
    have "of_int (n - c * j * 2 ^ k) * (2::rat) powi e \<le> of_int n * 2 powi e"
      using rx rn n(1) by simp
    then have "(of_int (n - c * j * 2 ^ k) :: rat) \<le> of_int n"
      by (simp only: mult_le_cancel_right_pos[OF pw_pos])
    then have 1: "n - c * j * 2 ^ k \<le> n" by (simp only: of_int_le_iff)
    have "0 * (2::rat) powi e \<le> of_int (n - c * j * 2 ^ k) * (2::rat) powi e"
      using r0 rn by simp
    then have "(0::rat) \<le> of_int (n - c * j * 2 ^ k)"
      by (simp only: mult_le_cancel_right_pos[OF pw_pos])
    then have 2: "0 \<le> n - c * j * 2 ^ k" by (simp only: of_int_0_le_iff)
    from 1 2 n(3) have "\<bar>n - c * j * 2 ^ k\<bar> < 2 ^ 53" by linarith
    from round_double_exact[OF this, of e] show ?thesis unfolding rn is_double_def .
  qed
  then show ?thesis unfolding j_def .
qed

text \<open>Evaluation of a rounding whose result has the significand \<open>m\<close>.\<close>

lemma round_double_eqI:
  assumes m: "2 ^ 52 < \<bar>m\<bar>" "\<bar>m\<bar> < 2 ^ 53"
    and near: "\<bar>x - of_int m * 2 powi e\<bar> < 2 powi e / 2"
  shows "round_double x = of_int m * 2 powi e"
proof -
  let ?u = "(2::rat) powi e"
  have u: "0 < ?u" by simp
  have am: "\<bar>of_int m * ?u\<bar> = of_int \<bar>m\<bar> * ?u" by (simp add: abs_mult)
  have "2 ^ 52 + 1 \<le> \<bar>m\<bar>" using m(1) by simp
  then have "(of_int (2 ^ 52 + 1) :: rat) \<le> of_int \<bar>m\<bar>" by (simp only: of_int_le_iff)
  then have "of_int (2 ^ 52 + 1) * ?u \<le> of_int \<bar>m\<bar> * ?u" by (intro mult_right_mono) simp_all
  moreover have "of_int (2 ^ 52 + 1) * ?u = 2 ^ 52 * ?u + ?u" by (simp add: algebra_simps)
  ultimately have lo: "2 ^ 52 * ?u + ?u \<le> of_int \<bar>m\<bar> * ?u" by simp
  have "\<bar>m\<bar> \<le> 2 ^ 53 - 1" using m(2) by simp
  then have "(of_int \<bar>m\<bar> :: rat) \<le> of_int (2 ^ 53 - 1)" by (simp only: of_int_le_iff)
  then have "of_int \<bar>m\<bar> * ?u \<le> of_int (2 ^ 53 - 1) * ?u" by (intro mult_right_mono) simp_all
  moreover have "of_int (2 ^ 53 - 1) * ?u = 2 ^ 53 * ?u - ?u" by (simp add: algebra_simps)
  ultimately have hi: "of_int \<bar>m\<bar> * ?u \<le> 2 ^ 53 * ?u - ?u" by simp
  have d: "\<bar>\<bar>x\<bar> - of_int \<bar>m\<bar> * ?u\<bar> < ?u / 2"
    using near am abs_triangle_ineq3[of x "of_int m * ?u"] by linarith
  have "2 ^ 52 * ?u \<le> \<bar>x\<bar>" using d lo u by linarith
  then have 1: "2 powi (e + 52) \<le> \<bar>x\<bar>" using pw_split52[of "e + 52"] by simp
  have "\<bar>x\<bar> < 2 ^ 53 * ?u" using d hi u by linarith
  then have 2: "\<bar>x\<bar> < 2 powi (e + 52 + 1)" using pw_split53[of "e + 52"] by simp
  have e: "exponent_of x - 52 = e" using exponent_of_eqI[OF 1 2] by simp
  have "0 < (2::rat) powi (e + 52)" by simp
  with 1 have "0 < \<bar>x\<bar>" by linarith
  then have x0: "x \<noteq> 0" by simp
  have "\<bar>x / ?u - of_int m\<bar> = \<bar>x - of_int m * ?u\<bar> / ?u"
    using u by (simp add: field_simps abs_divide)
  also have "\<dots> < 1 / 2" using near u by (simp add: field_simps)
  finally have "round_half_even (x / ?u) = m" by (rule round_half_even_unique)
  then show ?thesis using x0 e by (simp add: round_double_def Let_def)
qed

lemma exponent_of_minus [simp]: "exponent_of (- x) = exponent_of x"
  by (simp add: exponent_of_def)

lemma round_half_even_minus: "round_half_even (- x) = - round_half_even x"
proof (cases "x = of_int \<lfloor>x\<rfloor>")
  case True
  then obtain n where "x = of_int n" by blast
  then have "- x = of_int (- n)" by simp
  then show ?thesis using \<open>x = of_int n\<close> by (simp only: round_half_even_of_int)
next
  case False
  have c: "\<lceil>x\<rceil> = \<lfloor>x\<rfloor> + 1" using False by (simp add: ceiling_altdef)
  have fm: "\<lfloor>- x\<rfloor> = - \<lfloor>x\<rfloor> - 1" using c by (simp add: ceiling_def)
  have r: "- x - of_int (- \<lfloor>x\<rfloor> - 1) = 1 - (x - of_int \<lfloor>x\<rfloor>)" by simp
  have ev: "even (- \<lfloor>x\<rfloor> - 1) \<longleftrightarrow> odd \<lfloor>x\<rfloor>" by simp
  show ?thesis
    unfolding round_half_even_def Let_def fm r ev
    by (cases "x - of_int \<lfloor>x\<rfloor> < 1 / 2"; cases "1 / 2 < x - of_int \<lfloor>x\<rfloor>") auto
qed

lemma round_double_minus: "round_double (- x) = - round_double x"
  by (simp add: round_double_def Let_def round_half_even_minus)

text \<open>
  The quotient of two integers, the dividend below \<open>2^53\<close>: its rounding to a double
  changes neither its floor nor its ceiling.
\<close>

lemma floor_round_double_quotient:
  assumes a: "0 \<le> a" "a < 2 ^ 53" and b: "0 < b"
  shows "\<lfloor>round_double (of_int a / of_int b)\<rfloor> = \<lfloor>(of_int a / of_int b :: rat)\<rfloor>"
proof (rule floor_unique)
  let ?q = "of_int a / of_int b :: rat"
  let ?n = "\<lfloor>?q\<rfloor>"
  have bq: "0 < (of_int b :: rat)" using b by simp
  have q0: "0 \<le> ?q" using a b by simp
  have n0: "0 \<le> ?n" using q0 by simp
  have "?q \<le> of_int a"
  proof -
    have "(of_int a :: rat) * 1 \<le> of_int a * of_int b" using a b by (intro mult_left_mono) simp_all
    then show ?thesis using bq by (simp add: field_simps)
  qed
  then have "?n \<le> a" by (simp add: floor_le_iff)
  with n0 a have n53: "\<bar>?n\<bar> < 2 ^ 53" by linarith
  have "round_double (of_int ?n) \<le> round_double ?q"
    by (rule round_double_mono) (use n0 in simp_all)
  then show "of_int ?n \<le> round_double ?q" by (simp only: round_double_of_int[OF n53])
  show "round_double ?q < of_int ?n + 1"
  proof (rule ccontr)
    assume "\<not> round_double ?q < of_int ?n + 1"
    then have ge: "of_int ?n + 1 \<le> round_double ?q" by simp
    have q1: "?q < of_int ?n + 1" using floor_correct[of ?q] by simp
    then have "of_int a < (of_int ?n + 1) * (of_int b :: rat)"
      by (simp only: pos_divide_less_eq[OF bq])
    then have "(of_int a :: rat) < of_int ((?n + 1) * b)" by simp
    then have "a < (?n + 1) * b" by (simp only: of_int_less_iff)
    then have "1 \<le> (?n + 1) * b - a" by simp
    then have "(of_int 1 :: rat) \<le> of_int ((?n + 1) * b - a)" by (simp only: of_int_le_iff)
    then have i: "1 \<le> (of_int ?n + 1) * of_int b - (of_int a :: rat)" by simp
    have "round_double ?q - ?q \<le> ?q / 2 ^ 53" using round_double_error[OF q0] by linarith
    with ge have "of_int ?n + 1 - ?q \<le> ?q / 2 ^ 53" by linarith
    then have "(of_int ?n + 1 - ?q) * of_int b \<le> ?q / 2 ^ 53 * of_int b"
      using bq by (intro mult_right_mono) simp_all
    moreover have "(of_int ?n + 1 - ?q) * of_int b = (of_int ?n + 1) * of_int b - of_int a"
      using bq by (simp add: field_simps)
    moreover have "?q / 2 ^ 53 * of_int b = of_int a / 2 ^ 53" using bq by simp
    ultimately have "(of_int ?n + 1) * of_int b - (of_int a :: rat) \<le> of_int a / 2 ^ 53" by simp
    with i have "(1 :: rat) \<le> of_int a / 2 ^ 53" by linarith
    then have "(of_int (2 ^ 53) :: rat) \<le> of_int a" by simp
    then have "2 ^ 53 \<le> a" by (simp only: of_int_le_iff)
    with a show False by simp
  qed
qed

lemma ceiling_round_double_quotient:
  assumes a: "0 \<le> a" "a < 2 ^ 53" and b: "0 < b"
  shows "\<lceil>round_double (of_int a / of_int b)\<rceil> = \<lceil>(of_int a / of_int b :: rat)\<rceil>"
proof (rule ceiling_unique)
  let ?q = "of_int a / of_int b :: rat"
  let ?n = "\<lceil>?q\<rceil>"
  have bq: "0 < (of_int b :: rat)" using b by simp
  have q0: "0 \<le> ?q" using a b by simp
  have n0: "0 \<le> ?n" using q0 by simp
  have "?q \<le> of_int a"
  proof -
    have "(of_int a :: rat) * 1 \<le> of_int a * of_int b" using a b by (intro mult_left_mono) simp_all
    then show ?thesis using bq by (simp add: field_simps)
  qed
  then have "?n \<le> a" by (simp add: ceiling_le_iff)
  with n0 a have n53: "\<bar>?n\<bar> < 2 ^ 53" by linarith
  have "round_double ?q \<le> round_double (of_int ?n)"
    by (rule round_double_mono[OF q0]) simp
  then show "round_double ?q \<le> of_int ?n" by (simp only: round_double_of_int[OF n53])
  show "of_int ?n - 1 < round_double ?q"
  proof (rule ccontr)
    assume "\<not> of_int ?n - 1 < round_double ?q"
    then have le: "round_double ?q \<le> of_int ?n - 1" by simp
    have q1: "of_int ?n - 1 < ?q" using ceiling_correct[of ?q] by simp
    then have "(of_int ?n - 1) * (of_int b :: rat) < of_int a"
      by (simp only: pos_less_divide_eq[OF bq])
    then have "(of_int ((?n - 1) * b) :: rat) < of_int a" by simp
    then have "(?n - 1) * b < a" by (simp only: of_int_less_iff)
    then have "1 \<le> a - (?n - 1) * b" by simp
    then have "(of_int 1 :: rat) \<le> of_int (a - (?n - 1) * b)" by (simp only: of_int_le_iff)
    then have i: "1 \<le> (of_int a :: rat) - (of_int ?n - 1) * of_int b" by simp
    have "?q - round_double ?q \<le> ?q / 2 ^ 53" using round_double_error[OF q0] by linarith
    with le have "?q - (of_int ?n - 1) \<le> ?q / 2 ^ 53" by linarith
    then have "(?q - (of_int ?n - 1)) * of_int b \<le> ?q / 2 ^ 53 * of_int b"
      using bq by (intro mult_right_mono) simp_all
    moreover have "(?q - (of_int ?n - 1)) * of_int b = of_int a - (of_int ?n - 1) * of_int b"
      using bq by (simp add: field_simps)
    moreover have "?q / 2 ^ 53 * of_int b = of_int a / 2 ^ 53" using bq by simp
    ultimately have "(of_int a :: rat) - (of_int ?n - 1) * of_int b \<le> of_int a / 2 ^ 53" by simp
    with i have "(1 :: rat) \<le> of_int a / 2 ^ 53" by linarith
    then have "(of_int (2 ^ 53) :: rat) \<le> of_int a" by simp
    then have "2 ^ 53 \<le> a" by (simp only: of_int_le_iff)
    with a show False by simp
  qed
qed

text \<open>
  So the number of batches, \<^verbatim>\<open>Math.ceil(totalUsers / batchSize)\<close>, is the ceiling of the
  exact quotient for every total below \<open>2^53\<close> in magnitude.
\<close>

lemma Math_ceil_div_double:
  assumes a: "\<bar>a\<bar> < 2 ^ 53" and b: "b \<noteq> 0"
  shows "Math_ceil_div a b = Num \<lceil>round_double (of_int a / of_int b)\<rceil>"
proof -
  have pos: "\<lceil>round_double (of_int x / of_int y)\<rceil> = \<lceil>(of_int x / of_int y :: rat)\<rceil>"
    if "0 \<le> x" "x < 2 ^ 53" "0 < y" for x y :: int
    using that by (rule ceiling_round_double_quotient)
  have neg: "\<lceil>round_double (- (of_int x / of_int y))\<rceil> = \<lceil>- (of_int x / of_int y :: rat)\<rceil>"
    if "0 \<le> x" "x < 2 ^ 53" "0 < y" for x y :: int
    unfolding round_double_minus ceiling_minus
    using floor_round_double_quotient[OF that] by simp
  have "\<lceil>round_double (of_int a / of_int b)\<rceil> = \<lceil>(of_int a / of_int b :: rat)\<rceil>"
  proof (cases "0 \<le> a")
    case a0: True
    show ?thesis
    proof (cases "0 < b")
      case True
      with a0 a show ?thesis by (intro pos) simp_all
    next
      case False
      with b have "0 < - b" by simp
      with a0 a have "\<lceil>round_double (- (of_int a / of_int (- b)))\<rceil> =
          \<lceil>- (of_int a / of_int (- b) :: rat)\<rceil>"
        by (intro neg) simp_all
      then show ?thesis by simp
    qed
  next
    case False
    then have a0: "0 \<le> - a" "- a < 2 ^ 53" using a by simp_all
    show ?thesis
    proof (cases "0 < b")
      case True
      with a0 have "\<lceil>round_double (- (of_int (- a) / of_int b))\<rceil> =
          \<lceil>- (of_int (- a) / of_int b :: rat)\<rceil>"
        by (intro neg) simp_all
      then show ?thesis by simp
    next
      case False
      with b have "0 < - b" by simp
      with a0 have "\<lceil>round_double (of_int (- a) / of_int (- b))\<rceil> =
          \<lceil>(of_int (- a) / of_int (- b) :: rat)\<rceil>"
        by (intro pos) simp_all
      then show ?thesis by simp
    qed
  qed
  then show ?thesis using b by (simp add: Math_ceil_div_def)
qed


section \<open>Progress of the concurrent run\<close>

lemma sum_list_update_nat:
  fixes f :: "'a \<Rightarrow> nat"
  shows "j < length xs \<Longrightarrow> (\<Sum>x\<leftarrow>xs[j := y]. f x) + f (xs ! j) = (\<Sum>x\<leftarrow>xs. f x) + f y"
  by (induction xs arbitrary: j) (auto split: nat.splits)

lemma reachable_step: "reachable w cfg st \<Longrightarrow> reachable w cfg (step w cfg st ev)"
proof -
  assume "reachable w cfg st"
  then obtain st0 schedule where s: "seedUsers_start cfg = Inr st0" "st = run w cfg schedule st0"
    unfolding reachable_def by blast
  have "step w cfg st ev = run w cfg (schedule @ [ev]) st0" using s(2) by (simp add: run_def)
  with s(1) show ?thesis unfolding reachable_def by blast
qed

lemma dispatch_work:
  assumes "js_less (currentBatch st) (batches_of cfg)" and "batches_of cfg \<noteq> PosInfinity"
    and "0 < availableSlots (semaphore st)"
  shows "work_left cfg (dispatch w cfg st) < work_left cfg st"
proof -
  obtain n where n: "batches_of cfg = Num n" "currentBatch st < n"
    using assms(1,2) by (cases "batches_of cfg") simp_all
  let ?j = "findIndex_null (semaphore st)"
  have j: "?j < length (semaphore st)" "semaphore st ! ?j = None"
    using findIndex_null_free[OF assms(3)] by simp_all
  obtain p where d: "semaphore (dispatch w cfg st) = (semaphore st)[?j := Some p]"
    "currentBatch (dispatch w cfg st) = currentBatch st + 1"
    "phase (dispatch w cfg st) = phase st"
    by (cases "generate w cfg (currentBatch st)
         (currentBatchSize (seeding_totalUsers cfg) (seeding_batchSize cfg) (currentBatch st))")
      (simp_all add: dispatch_def processBatch_start_def Let_def)
  have "(\<Sum>slot\<leftarrow>(semaphore st)[?j := Some p]. slot_work slot) + slot_work (semaphore st ! ?j) =
        (\<Sum>slot\<leftarrow>semaphore st. slot_work slot) + slot_work (Some p)"
    by (rule sum_list_update_nat[OF j(1)])
  moreover have "slot_work (Some p) \<le> 2" by (cases p) (simp_all add: slot_work_def)
  moreover have "slot_work (semaphore st ! ?j) = 0" using j(2) by (simp add: slot_work_def)
  ultimately have s: "(\<Sum>slot\<leftarrow>(semaphore st)[?j := Some p]. slot_work slot) \<le>
        (\<Sum>slot\<leftarrow>semaphore st. slot_work slot) + 2" by simp
  have "3 * nat (n - (currentBatch st + 1)) + 3 = 3 * nat (n - currentBatch st)"
    using n(2) by simp
  with s show ?thesis unfolding work_left_def d n(1) by simp
qed

lemma all_settled_work:
  assumes "j < length (semaphore st)" and "semaphore st ! j = Some (Awaiting k users)"
  shows "work_left cfg (all_settled w j st) < work_left cfg st"
proof -
  have d: "semaphore (all_settled w j st) = (semaphore st)[j := Some (Completing k)]"
    "currentBatch (all_settled w j st) = currentBatch st"
    "phase (all_settled w j st) = phase st"
    using assms by (simp_all add: all_settled_def tally_def)
  have "(\<Sum>slot\<leftarrow>(semaphore st)[j := Some (Completing k)]. slot_work slot) +
          slot_work (semaphore st ! j) =
        (\<Sum>slot\<leftarrow>semaphore st. slot_work slot) + slot_work (Some (Completing k))"
    by (rule sum_list_update_nat[OF assms(1)])
  moreover have "slot_work (semaphore st ! j) = 2" "slot_work (Some (Completing k)) = 1"
    using assms(2) by (simp_all add: slot_work_def)
  ultimately have "(\<Sum>slot\<leftarrow>(semaphore st)[j := Some (Completing k)]. slot_work slot) + 1 =
        (\<Sum>slot\<leftarrow>semaphore st. slot_work slot)"
    by linarith
  then show ?thesis unfolding work_left_def d by linarith
qed

lemma finally_work:
  assumes "j < length (semaphore st)" and "semaphore st ! j = Some (Completing k)"
  shows "work_left cfg (finally_callback j st) < work_left cfg st"
proof -
  have d: "semaphore (finally_callback j st) = (semaphore st)[j := None]"
    "currentBatch (finally_callback j st) = currentBatch st"
    "phase (finally_callback j st) = phase st"
    using assms by (simp_all add: finally_callback_def)
  have "(\<Sum>slot\<leftarrow>(semaphore st)[j := None]. slot_work slot) + slot_work (semaphore st ! j) =
        (\<Sum>slot\<leftarrow>semaphore st. slot_work slot) + slot_work None"
    by (rule sum_list_update_nat[OF assms(1)])
  moreover have "slot_work (semaphore st ! j) = 1" "slot_work None = 0"
    using assms(2) by (simp_all add: slot_work_def)
  ultimately have "(\<Sum>slot\<leftarrow>(semaphore st)[j := None]. slot_work slot) + 1 =
        (\<Sum>slot\<leftarrow>semaphore st. slot_work slot)"
    by linarith
  then show ?thesis unfolding work_left_def d by linarith
qed

text \<open>Every event either leaves the state as it is or takes work off.\<close>

lemma step_work:
  assumes "batches_of cfg \<noteq> PosInfinity"
  shows "step w cfg st ev = st \<or> work_left cfg (step w cfg st ev) < work_left cfg st"
proof (cases ev)
  case MainLoop
  show ?thesis
  proof (cases "phase st")
    case Running
    show ?thesis
    proof (cases "js_less (currentBatch st) (batches_of cfg)")
      case True
      show ?thesis
      proof (cases "0 < availableSlots (semaphore st)")
        case slots: True
        have "step w cfg st ev = dispatch w cfg st"
          using MainLoop Running True slots by (simp add: main_loop_def batches_of_def)
        with dispatch_work[OF True assms slots, of w] show ?thesis by simp
      next
        case False
        then have "step w cfg st ev = st"
          using MainLoop Running True by (simp add: main_loop_def batches_of_def)
        then show ?thesis ..
      qed
    next
      case False
      then have "step w cfg st ev = st\<lparr>phase := Draining\<rparr>"
        using MainLoop Running by (simp add: main_loop_def batches_of_def)
      then have "work_left cfg (step w cfg st ev) < work_left cfg st"
        using Running by (simp add: work_left_def phase_work_def cong: jsnum.case_cong)
      then show ?thesis ..
    qed
  next
    case Draining
    show ?thesis
    proof (cases "filter (\<lambda>slot. slot \<noteq> None) (semaphore st) = []")
      case True
      then have "step w cfg st ev = st\<lparr>phase := Finished\<rparr>"
        using MainLoop Draining by (simp add: main_loop_def)
      then have "work_left cfg (step w cfg st ev) < work_left cfg st"
        using Draining by (simp add: work_left_def phase_work_def cong: jsnum.case_cong)
      then show ?thesis ..
    next
      case False
      then have "step w cfg st ev = st"
        using MainLoop Draining by (simp add: main_loop_def)
      then show ?thesis ..
    qed
  next
    case Finished
    then have "step w cfg st ev = st" using MainLoop by (simp add: main_loop_def)
    then show ?thesis ..
  qed
next
  case (AllSettled j)
  show ?thesis
  proof (cases "j < length (semaphore st) \<and> (\<exists>k users. semaphore st ! j = Some (Awaiting k users))")
    case True
    then obtain k users where "j < length (semaphore st)" "semaphore st ! j = Some (Awaiting k users)"
      by blast
    from all_settled_work[OF this] show ?thesis using AllSettled by simp
  next
    case False
    then have "all_settled w j st = st"
      by (auto simp: all_settled_def split: option.splits promise.splits)
    then show ?thesis using AllSettled by simp
  qed
next
  case (Finally j)
  show ?thesis
  proof (cases "j < length (semaphore st) \<and> (\<exists>k. semaphore st ! j = Some (Completing k))")
    case True
    then obtain k where "j < length (semaphore st)" "semaphore st ! j = Some (Completing k)"
      by blast
    from finally_work[OF this] show ?thesis using Finally by simp
  next
    case False
    then have "finally_callback j st = st"
      by (auto simp: finally_callback_def split: option.splits promise.splits)
    then show ?thesis using Finally by simp
  qed
qed

text \<open>
  So a schedule, however long, changes the state at most \<open>work_left\<close> times: the run
  cannot go on for ever.
\<close>

lemma effective_events_bound:
  assumes "batches_of cfg \<noteq> PosInfinity"
  shows "effective_events w cfg st schedule + work_left cfg (run w cfg schedule st)
         \<le> work_left cfg st"
proof (induction schedule arbitrary: st)
  case Nil
  then show ?case by (simp add: run_def)
next
  case (Cons ev evs)
  have r: "run w cfg (ev # evs) st = run w cfg evs (step w cfg st ev)" by (simp add: run_def)
  from step_work[OF assms, of w st ev] Cons[of "step w cfg st ev"]
  show ?case unfolding r by (cases "step w cfg st ev = st") simp_all
qed

text \<open>A batch in flight can always take its next step.\<close>

lemma occupied_slot_work:
  assumes "j < length (semaphore st)" and "semaphore st ! j \<noteq> None"
  shows "\<exists>ev. work_left cfg (step w cfg st ev) < work_left cfg st"
proof -
  from assms(2) obtain p where p: "semaphore st ! j = Some p" by blast
  show ?thesis
  proof (cases p)
    case (Awaiting k users)
    with p have "semaphore st ! j = Some (Awaiting k users)" by simp
    from all_settled_work[OF assms(1) this]
    have "work_left cfg (step w cfg st (AllSettled j)) < work_left cfg st" by simp
    then show ?thesis ..
  next
    case (Completing k)
    with p have "semaphore st ! j = Some (Completing k)" by simp
    from finally_work[OF assms(1) this]
    have "work_left cfg (step w cfg st (Finally j)) < work_left cfg st" by simp
    then show ?thesis ..
  qed
qed

text \<open>
  With at least one slot, a state that is not finished has an event that takes work off:
  the run cannot be stuck.
\<close>

lemma progress_possible:
  assumes r: "reachable w cfg st" and nf: "phase st \<noteq> Finished"
    and fin: "batches_of cfg \<noteq> PosInfinity" and c: "1 \<le> seeding_concurrentBatches cfg"
  shows "\<exists>ev. work_left cfg (step w cfg st ev) < work_left cfg st"
proof -
  have len: "length (semaphore st) = nat (seeding_concurrentBatches cfg)"
    using reachable_inv[OF r] by (simp add: inv_def)
  show ?thesis
  proof (cases "phase st")
    case Running
    show ?thesis
    proof (cases "js_less (currentBatch st) (batches_of cfg)")
      case True
      show ?thesis
      proof (cases "0 < availableSlots (semaphore st)")
        case slots: True
        have "step w cfg st MainLoop = dispatch w cfg st"
          using Running True slots by (simp add: main_loop_def batches_of_def)
        with dispatch_work[OF True fin slots, of w]
        have "work_left cfg (step w cfg st MainLoop) < work_left cfg st" by simp
        then show ?thesis ..
      next
        case False
        then have "filter (\<lambda>slot. slot = None) (semaphore st) = []"
          by (simp add: availableSlots_def)
        then have none: "\<forall>slot \<in> set (semaphore st). \<not> slot = None"
          by (simp only: filter_empty_conv)
        have 0: "0 < length (semaphore st)" using len c by simp
        then have "semaphore st ! 0 \<in> set (semaphore st)" by simp
        with none have "semaphore st ! 0 \<noteq> None" by blast
        from occupied_slot_work[OF 0 this] show ?thesis .
      qed
    next
      case False
      then have "step w cfg st MainLoop = st\<lparr>phase := Draining\<rparr>"
        using Running by (simp add: main_loop_def batches_of_def)
      then have "work_left cfg (step w cfg st MainLoop) < work_left cfg st"
        using Running by (simp add: work_left_def phase_work_def cong: jsnum.case_cong)
      then show ?thesis ..
    qed
  next
    case Draining
    show ?thesis
    proof (cases "filter (\<lambda>slot. slot \<noteq> None) (semaphore st) = []")
      case True
      then have "step w cfg st MainLoop = st\<lparr>phase := Finished\<rparr>"
        using Draining by (simp add: main_loop_def)
      then have "work_left cfg (step w cfg st MainLoop) < work_left cfg st"
        using Draining by (simp add: work_left_def phase_work_def cong: jsnum.case_cong)
      then show ?thesis ..
    next
      case False
      then have "\<exists>slot \<in> set (semaphore st). slot \<noteq> None"
        unfolding filter_empty_conv by blast
      then obtain slot where "slot \<in> set (semaphore st)" "slot \<noteq> None" by blast
      then obtain j where "j < length (semaphore st)" "semaphore st ! j \<noteq> None"
        unfolding in_set_conv_nth by blast
      from occupied_slot_work[OF this] show ?thesis .
    qed
  next
    case Finished
    with nf show ?thesis by simp
  qed
qed

text \<open>So from every state of the run a finished state is at most \<open>work_left\<close> events away.\<close>

lemma finishes_from:
  assumes fin: "batches_of cfg \<noteq> PosInfinity" and c: "1 \<le> seeding_concurrentBatches cfg"
  shows "reachable w cfg st \<Longrightarrow>
         \<exists>schedule. length schedule \<le> work_left cfg st \<and>
           phase (run w cfg schedule st) = Finished"
proof (induction "work_left cfg st" arbitrary: st rule: less_induct)
  case less
  show ?case
  proof (cases "phase st = Finished")
    case True
    then have "length ([] :: event list) \<le> work_left cfg st \<and> phase (run w cfg [] st) = Finished"
      by (simp add: run_def)
    then show ?thesis by blast
  next
    case False
    from progress_possible[OF less.prems False fin c]
    obtain ev where ev: "work_left cfg (step w cfg st ev) < work_left cfg st" by blast
    from less.hyps[OF ev reachable_step[OF less.prems]]
    obtain schedule where s: "length schedule \<le> work_left cfg (step w cfg st ev)"
      "phase (run w cfg schedule (step w cfg st ev)) = Finished" by blast
    have "run w cfg (ev # schedule) st = run w cfg schedule (step w cfg st ev)"
      by (simp add: run_def)
    with s ev have "length (ev # schedule) \<le> work_left cfg st \<and>
        phase (run w cfg (ev # schedule) st) = Finished" by simp
    then show ?thesis by blast
  qed
qed

section \<open>Failed records\<close>

lemma zip_upt_nth: "zip [0 ..< length xs] xs = map (\<lambda>i. (i, xs ! i)) [0 ..< length xs]"
  by (rule nth_equalityI) simp_all

lemma failures_allSettled: "failures (allSettled w k 0 users) = failed_records w k users"
  by (simp add: failures_def allSettled_def failed_records_def zip_upt_nth filter_map comp_def
      createUser_def)

lemma createUserWithRetry_fails:
  "outcome (createUserWithRetry remote) \<noteq> None \<longleftrightarrow> retry_fails remote"
proof -
  have 1: "retry_loop remote 3 (Suc 0) [] =
      (case remote (Suc 0) of
         None \<Rightarrow> \<lparr>outcome = None, attempts = Suc 0, waits = []\<rparr>
       | Some e \<Rightarrow> if isNetworkError e then retry_loop remote 3 (Suc (Suc 0)) [1000]
                   else \<lparr>outcome = Some e, attempts = Suc 0, waits = []\<rparr>)"
    by (subst retry_loop.simps) (simp add: Let_def split: option.splits)
  have 2: "retry_loop remote 3 (Suc (Suc 0)) ws =
      (case remote (Suc (Suc 0)) of
         None \<Rightarrow> \<lparr>outcome = None, attempts = Suc (Suc 0), waits = ws\<rparr>
       | Some e \<Rightarrow> if isNetworkError e then retry_loop remote 3 (Suc (Suc (Suc 0))) (ws @ [2000])
                   else \<lparr>outcome = Some e, attempts = Suc (Suc 0), waits = ws\<rparr>)" for ws
    by (subst retry_loop.simps) (simp add: Let_def split: option.splits)
  have 3: "outcome (retry_loop remote 3 (Suc (Suc (Suc 0))) ws) = remote (Suc (Suc (Suc 0)))" for ws
    by (subst retry_loop.simps) (simp add: Let_def split: option.splits)
  have n: "(1::nat) = Suc 0" "(2::nat) = Suc (Suc 0)" "(3::nat) = Suc (Suc (Suc 0))"
    by simp_all
  have "outcome (retry_loop remote 3 (Suc 0) []) \<noteq> None \<longleftrightarrow>
      (case remote (Suc 0) of
        None \<Rightarrow> False
      | Some e1 \<Rightarrow>
          \<not> isNetworkError e1 \<or>
          (case remote (Suc (Suc 0)) of
             None \<Rightarrow> False
           | Some e2 \<Rightarrow> \<not> isNetworkError e2 \<or> remote (Suc (Suc (Suc 0))) \<noteq> None))"
    unfolding 1 by (auto simp: 2 3 split: option.splits)
  then show ?thesis
    unfolding createUserWithRetry_def retry_fails_def n(2) n(3) by simp
qed

lemma failures_retrySettled:
  "failures (retrySettled w k 0 users) = failed_records_with_retry w k users"
proof -
  have "failures (retrySettled w k 0 users) =
      length (filter (\<lambda>i. outcome (createUserWithRetry
        (\<lambda>a. admin_createUser w k i a (users ! i))) \<noteq> None) [0 ..< length users])"
    by (simp add: failures_def retrySettled_def zip_upt_nth filter_map comp_def del: not_None_eq)
  then show ?thesis unfolding failed_records_with_retry_def createUserWithRetry_fails .
qed


section \<open>C10: the counters never decrease\<close>

text \<open>
  C10. The two counters never decrease. Each operation that touches them adds a
  non-negative amount: the tally of a batch or of a sub-chunk, the completion of one
  record (the conservative loop on that record alone), the loop over the sub-chunks, a
  whole batch under the chunked and the conservative policy (including a batch lost to a
  generator exception), the loop over the batches, and every event of the concurrent
  seeder; along a run of the concurrent seeder the counters at a later point are at least
  those at an earlier point.
\<close>

theorem counters_never_decrease:
  fixes st :: seeder and cst :: AuthUserSeeder
  shows
    "(processedUsers st \<le> processedUsers (tally results st) \<and>
      errors st \<le> errors (tally results st)) \<and>
     (processedUsers st \<le> processedUsers (record_loop w k i [u] st) \<and>
      errors st \<le> errors (record_loop w k i [u] st)) \<and>
     (processedUsers st \<le> processedUsers (chunk_loop w k users j st) \<and>
      errors st \<le> errors (chunk_loop w k users j st)) \<and>
     (processedUsers st \<le> processedUsers (BatchSeeder_processBatch w cfg k s st) \<and>
      errors st \<le> errors (BatchSeeder_processBatch w cfg k s st)) \<and>
     (processedUsers st \<le> processedUsers (processBatchConservative w cfg k s st) \<and>
      errors st \<le> errors (processBatchConservative w cfg k s st)) \<and>
     (processedUsers st \<le>
        processedUsers (for_batches (BatchSeeder_processBatch w cfg) t b n q st) \<and>
      errors st \<le> errors (for_batches (BatchSeeder_processBatch w cfg) t b n q st)) \<and>
     (processedUsers st \<le>
        processedUsers (for_batches (processBatchConservative w cfg) t b n q st) \<and>
      errors st \<le> errors (for_batches (processBatchConservative w cfg) t b n q st)) \<and>
     (processedUsers cst \<le> processedUsers (step w cfg cst ev) \<and>
      errors cst \<le> errors (step w cfg cst ev)) \<and>
     (processedUsers (run w cfg schedule cst) \<le>
        processedUsers (run w cfg (schedule @ later) cst) \<and>
      errors (run w cfg schedule cst) \<le> errors (run w cfg (schedule @ later) cst))"
proof -
  note batch = for_batches_mono[of "BatchSeeder_processBatch w cfg" st t b n q,
      OF BatchSeeder_processBatch_mono]
  note cons = for_batches_mono[of "processBatchConservative w cfg" st t b n q,
      OF processBatchConservative_mono]
  note later = run_mono[of "run w cfg schedule cst" w cfg later, folded run_append]
  show ?thesis
    using batch cons later tally_mono[of st results] record_loop_mono[of st w k i "[u]"]
      chunk_loop_mono[of st w k users j] BatchSeeder_processBatch_mono[of st w cfg k s]
      processBatchConservative_mono[of st w cfg k s] step_mono[of cst w cfg ev]
    by blast
qed

section \<open>C2: the partition into batches\<close>

lemma spec_batches_div:
  "spec_batches t b = map (\<lambda>i. (i, min b (t - i * b))) (batch_range (- ((- t) div b)))"
  by (simp add: spec_batches_def ceiling_divide_eq_div)

lemma calls_spec_batches:
  "seeding_batchSize cfg \<noteq> 0 \<Longrightarrow>
   map (\<lambda>q. (q, size_of cfg q)) (final_range cfg) =
   spec_batches (seeding_totalUsers cfg) (seeding_batchSize cfg)"
  by (simp add: spec_batches_def final_range_eq size_of_eq)

lemma never_fails_counts:
  assumes b: "1 \<le> seeding_batchSize cfg" and t: "0 \<le> seeding_totalUsers cfg"
    and nf: "never_fails w"
  shows "(\<Sum>q\<leftarrow>final_range cfg. fst (delta_of w cfg q)) = seeding_totalUsers cfg"
    and "(\<Sum>q\<leftarrow>final_range cfg. snd (delta_of w cfg q)) = 0"
    and "(\<Sum>q\<leftarrow>final_range cfg. fst (retry_delta_of w cfg q)) = seeding_totalUsers cfg"
    and "(\<Sum>q\<leftarrow>final_range cfg. snd (retry_delta_of w cfg q)) = 0"
proof -
  have g: "\<forall>k. generator_throws w k = None" and a: "\<forall>k i a u. admin_createUser w k i a u = None"
    using nf by (simp_all add: never_fails_def)
  show e1: "(\<Sum>q\<leftarrow>final_range cfg. snd (delta_of w cfg q)) = 0"
    unfolding delta_of_def by (rule errors_zero[OF allSettled_never_fails[OF a] g])
  show e2: "(\<Sum>q\<leftarrow>final_range cfg. snd (retry_delta_of w cfg q)) = 0"
    unfolding retry_delta_of_def by (rule errors_zero[OF retrySettled_never_fails[OF a] g])
  show "(\<Sum>q\<leftarrow>final_range cfg. fst (delta_of w cfg q)) = seeding_totalUsers cfg"
    using total_conserved[of cfg "\<lambda>k. allSettled w k 0" w, OF b t length_allSettled g] e1
    by (simp add: delta_of_def)
  show "(\<Sum>q\<leftarrow>final_range cfg. fst (retry_delta_of w cfg q)) = seeding_totalUsers cfg"
    using total_conserved[of cfg "\<lambda>k. retrySettled w k 0" w, OF b t length_retrySettled g] e2
    by (simp add: retry_delta_of_def)
qed

lemma spec_batches_shape:
  fixes t b :: int
  assumes "1 \<le> t" "1 \<le> b"
  defines "n \<equiv> \<lceil>(of_int t :: rat) / of_int b\<rceil>"
  shows "length (spec_batches t b) = nat n" and "1 \<le> n"
    and "snd (last (spec_batches t b)) = t - (n - 1) * b"
    and "\<forall>(i, s) \<in> set (spec_batches t b). s = min b (t - i * b) \<and> 1 \<le> s \<and> s \<le> b"
proof -
  have n: "n = - ((- t) div b)" by (simp add: n_def ceiling_divide_eq_div)
  show len: "length (spec_batches t b) = nat n"
    by (simp add: spec_batches_def batch_range_def n_def)
  have "n * b \<ge> t" using ceil_bounds(1)[OF assms(2), of t] n by simp
  with assms show n1: "1 \<le> n"
    by (smt (verit, best) mult_le_0_iff)
  have br: "batch_range n = batch_range (n - 1) @ [n - 1]"
    using batch_range_step[of "n - 1"] n1 by simp
  have "snd (last (spec_batches t b)) = min b (t - (n - 1) * b)"
    unfolding spec_batches_def n_def[symmetric] br by simp
  also have "\<dots> = t - (n - 1) * b"
    using currentBatchSize_last[OF assms(2), of t] n by (simp add: currentBatchSize_def Let_def)
  finally show "snd (last (spec_batches t b)) = t - (n - 1) * b" .
  show "\<forall>(i, s) \<in> set (spec_batches t b). s = min b (t - i * b) \<and> 1 \<le> s \<and> s \<le> b"
  proof (clarify)
    fix i s assume "(i, s) \<in> set (spec_batches t b)"
    then have s: "s = min b (t - i * b)" and i: "0 \<le> i" "i < - ((- t) div b)"
      using n by (auto simp: spec_batches_def n_def[symmetric] set_batch_range)
    from currentBatchSize_bounds[OF assms(2) i]
    show "s = min b (t - i * b) \<and> 1 \<le> s \<and> s \<le> b"
      using s by (simp add: currentBatchSize_def Let_def)
  qed
qed

text \<open>
  C2, as stated, fails for the conservative policy: it caps the batch size at 100, so
  with 250 records and a configured batch size of 250 it dispatches three batches of
  sizes 100, 100 and 50, where the stated formula gives one batch of 250.
\<close>

theorem conservative_batches_counterexample:
  "calls (the (ConservativeSeeder_seedUsers quiet_world (config_of ''u'' ''k'' 250 250 5))) =
     [(0, 100), (1, 100), (2, 50)] \<and>
   spec_batches 250 250 = [(0, 250)]"
proof -
  let ?cfg = "config_of ''u'' ''k'' 250 250 5"
  have b: "seeding_batchSize (conservative_config ?cfg) = 100"
    and t: "seeding_totalUsers (conservative_config ?cfg) = 250"
    by (simp_all add: conservative_config_def config_of_def)
  have fin: "batches_of (conservative_config ?cfg) \<noteq> PosInfinity"
    by (rule batches_finite) (simp add: b)
  have "map (\<lambda>q. (q, size_of (conservative_config ?cfg) q)) (final_range (conservative_config ?cfg)) =
        spec_batches 250 100"
    using calls_spec_batches[of "conservative_config ?cfg"] by (simp add: b t)
  also have "\<dots> = [(0, 100), (1, 100), (2, 50)]"
    by (simp add: spec_batches_div batch_range_def upt_rec)
  finally have "calls (the (ConservativeSeeder_seedUsers quiet_world ?cfg)) =
      [(0, 100), (1, 100), (2, 50)]"
    using ConservativeSeeder_final[OF fin, of quiet_world] by auto
  moreover have "spec_batches 250 250 = [(0, 250)]"
    by (simp add: spec_batches_div batch_range_def upt_rec)
  ultimately show ?thesis by simp
qed

text \<open>
  C2 (amended). For a total of at least 1 and a configured batch size of at least 1, the
  batches dispatched by a run are exactly those of \<^const>\<open>spec_batches\<close> for the effective
  batch size: the configured one under the chunked and the concurrent policy (for the
  latter, in every finished run), and the configured one capped at 100 under the
  conservative policy; a finished run of the concurrent policy exists when the number of
  slots is at least 1. For either size there are \<open>ceil(total / size)\<close> batches, the last
  of size \<open>total - (batches - 1) * size\<close>, and every batch has between 1 and \<open>size\<close>
  records. With a creator and a generator that never fail, the run ends with
  \<open>processedUsers = total\<close> and \<open>errors = 0\<close>.
\<close>

theorem batches_per_policy:
  assumes "1 \<le> seeding_totalUsers cfg" and "1 \<le> seeding_batchSize cfg"
  shows
    "(\<exists>st. BatchSeeder_seedUsers w cfg = Some st \<and>
        calls st = spec_batches (seeding_totalUsers cfg) (seeding_batchSize cfg) \<and>
        (never_fails w \<longrightarrow> processedUsers st = seeding_totalUsers cfg \<and> errors st = 0)) \<and>
     (\<forall>st. reachable w cfg st \<and> phase st = Finished \<longrightarrow>
        calls st = spec_batches (seeding_totalUsers cfg) (seeding_batchSize cfg) \<and>
        (never_fails w \<longrightarrow> processedUsers st = seeding_totalUsers cfg \<and> errors st = 0)) \<and>
     (\<exists>st. ConservativeSeeder_seedUsers w cfg = Some st \<and>
        calls st = spec_batches (seeding_totalUsers cfg) (min (seeding_batchSize cfg) 100) \<and>
        (never_fails w \<longrightarrow> processedUsers st = seeding_totalUsers cfg \<and> errors st = 0)) \<and>
     (\<forall>size \<in> {seeding_batchSize cfg, min (seeding_batchSize cfg) 100}.
        length (spec_batches (seeding_totalUsers cfg) size) =
          nat \<lceil>(of_int (seeding_totalUsers cfg) :: rat) / of_int size\<rceil> \<and>
        snd (last (spec_batches (seeding_totalUsers cfg) size)) =
          seeding_totalUsers cfg -
            (\<lceil>(of_int (seeding_totalUsers cfg) :: rat) / of_int size\<rceil> - 1) * size \<and>
        (\<forall>(i, s) \<in> set (spec_batches (seeding_totalUsers cfg) size).
           s = min size (seeding_totalUsers cfg - i * size) \<and> 1 \<le> s \<and> s \<le> size)) \<and>
     (1 \<le> seeding_concurrentBatches cfg \<and> seeding_concurrentBatches cfg \<le> 4294967295 \<longrightarrow>
        (\<exists>st. reachable w cfg st \<and> phase st = Finished))"
proof -
  let ?c = "conservative_config cfg"
  have t0: "0 \<le> seeding_totalUsers cfg" and b0: "seeding_batchSize cfg \<noteq> 0"
    using assms by simp_all
  have cb: "1 \<le> seeding_batchSize ?c" and ct: "0 \<le> seeding_totalUsers ?c"
    and cb0: "seeding_batchSize ?c \<noteq> 0"
    using assms by (simp_all add: conservative_config_simps)
  have chunked: "\<exists>st. BatchSeeder_seedUsers w cfg = Some st \<and>
        calls st = spec_batches (seeding_totalUsers cfg) (seeding_batchSize cfg) \<and>
        (never_fails w \<longrightarrow> processedUsers st = seeding_totalUsers cfg \<and> errors st = 0)"
    using BatchSeeder_final[OF batches_finite[OF b0], of w]
      never_fails_counts(1,2)[OF assms(2) t0, of w]
    by (auto simp: calls_spec_batches[OF b0])
  have concurrent: "\<forall>st. reachable w cfg st \<and> phase st = Finished \<longrightarrow>
        calls st = spec_batches (seeding_totalUsers cfg) (seeding_batchSize cfg) \<and>
        (never_fails w \<longrightarrow> processedUsers st = seeding_totalUsers cfg \<and> errors st = 0)"
    using AuthUserSeeder_final[of w cfg] never_fails_counts(1,2)[OF assms(2) t0, of w]
    by (auto simp: calls_spec_batches[OF b0])
  have conservative: "\<exists>st. ConservativeSeeder_seedUsers w cfg = Some st \<and>
        calls st = spec_batches (seeding_totalUsers cfg) (min (seeding_batchSize cfg) 100) \<and>
        (never_fails w \<longrightarrow> processedUsers st = seeding_totalUsers cfg \<and> errors st = 0)"
    using ConservativeSeeder_final[OF batches_finite[OF cb0], of w]
      never_fails_counts(3,4)[OF cb ct, of w] calls_spec_batches[OF cb0]
    by (auto simp: conservative_config_simps)
  have shape: "\<forall>size \<in> {seeding_batchSize cfg, min (seeding_batchSize cfg) 100}.
        length (spec_batches (seeding_totalUsers cfg) size) =
          nat \<lceil>(of_int (seeding_totalUsers cfg) :: rat) / of_int size\<rceil> \<and>
        snd (last (spec_batches (seeding_totalUsers cfg) size)) =
          seeding_totalUsers cfg -
            (\<lceil>(of_int (seeding_totalUsers cfg) :: rat) / of_int size\<rceil> - 1) * size \<and>
        (\<forall>(i, s) \<in> set (spec_batches (seeding_totalUsers cfg) size).
           s = min size (seeding_totalUsers cfg - i * size) \<and> 1 \<le> s \<and> s \<le> size)"
  proof
    fix size assume "size \<in> {seeding_batchSize cfg, min (seeding_batchSize cfg) 100}"
    with assms(2) have "1 \<le> size" by auto
    from spec_batches_shape(1,3,4)[OF assms(1) this]
    show "length (spec_batches (seeding_totalUsers cfg) size) =
          nat \<lceil>(of_int (seeding_totalUsers cfg) :: rat) / of_int size\<rceil> \<and>
        snd (last (spec_batches (seeding_totalUsers cfg) size)) =
          seeding_totalUsers cfg -
            (\<lceil>(of_int (seeding_totalUsers cfg) :: rat) / of_int size\<rceil> - 1) * size \<and>
        (\<forall>(i, s) \<in> set (spec_batches (seeding_totalUsers cfg) size).
           s = min size (seeding_totalUsers cfg - i * size) \<and> 1 \<le> s \<and> s \<le> size)"
      by blast
  qed
  have finishes:
    "1 \<le> seeding_concurrentBatches cfg \<and> seeding_concurrentBatches cfg \<le> 4294967295 \<longrightarrow>
       (\<exists>st. reachable w cfg st \<and> phase st = Finished)"
    using run_can_finish[OF _ _ batches_finite[OF b0], of w] by blast
  from chunked concurrent conservative shape finishes show ?thesis by blast
qed

lemma quiet_world_never_fails: "never_fails quiet_world"
  by (simp add: never_fails_def quiet_world_def)

lemma ten_by_three_run:
  "reachable quiet_world (config_of ''u'' ''k'' 10 3 2)
     (run quiet_world (config_of ''u'' ''k'' 10 3 2)
        [MainLoop, MainLoop, MainLoop, AllSettled 0, Finally 0, MainLoop, AllSettled 1,
         AllSettled 0, Finally 1, MainLoop, Finally 0, AllSettled 1, Finally 1, MainLoop,
         MainLoop]
        (projr (seedUsers_start (config_of ''u'' ''k'' 10 3 2)))) \<and>
   phase (run quiet_world (config_of ''u'' ''k'' 10 3 2)
        [MainLoop, MainLoop, MainLoop, AllSettled 0, Finally 0, MainLoop, AllSettled 1,
         AllSettled 0, Finally 1, MainLoop, Finally 0, AllSettled 1, Finally 1, MainLoop,
         MainLoop]
        (projr (seedUsers_start (config_of ''u'' ''k'' 10 3 2)))) = Finished"
proof -
  have start: "seedUsers_start (config_of ''u'' ''k'' 10 3 2) =
      Inr (projr (seedUsers_start (config_of ''u'' ''k'' 10 3 2)))"
    by (simp add: seedUsers_start_def config_of_def)
  have "phase (run quiet_world (config_of ''u'' ''k'' 10 3 2)
        [MainLoop, MainLoop, MainLoop, AllSettled 0, Finally 0, MainLoop, AllSettled 1,
         AllSettled 0, Finally 1, MainLoop, Finally 0, AllSettled 1, Finally 1, MainLoop,
         MainLoop]
        (projr (seedUsers_start (config_of ''u'' ''k'' 10 3 2)))) = Finished"
    by (simp add: seedUsers_start_def config_of_def quiet_world_def run_def main_loop_def
        Math_ceil_div_eq availableSlots_def dispatch_def processBatch_start_def generate_def
        currentBatchSize_def all_settled_def finally_callback_def tally_def Let_def
        numeral_2_eq_2)
  with start show ?thesis unfolding reachable_def by blast
qed

text \<open>
  The scenario of C2: 10 records in batches of 3 give the sizes 3, 3, 3, 1 under each
  policy, and 10 accounts and no error with a creator that always succeeds.
\<close>

theorem batches_per_policy_witness:
  "1 \<le> seeding_totalUsers (config_of ''u'' ''k'' 10 3 2) \<and>
   1 \<le> seeding_batchSize (config_of ''u'' ''k'' 10 3 2) \<and>
   never_fails quiet_world \<and>
   (\<exists>st. BatchSeeder_seedUsers quiet_world (config_of ''u'' ''k'' 10 3 2) = Some st \<and>
      map snd (calls st) = [3, 3, 3, 1] \<and> processedUsers st = 10 \<and> errors st = 0) \<and>
   (\<exists>st. reachable quiet_world (config_of ''u'' ''k'' 10 3 2) st \<and> phase st = Finished \<and>
      map snd (calls st) = [3, 3, 3, 1] \<and> processedUsers st = 10 \<and> errors st = 0) \<and>
   (\<exists>st. ConservativeSeeder_seedUsers quiet_world (config_of ''u'' ''k'' 10 3 2) = Some st \<and>
      map snd (calls st) = [3, 3, 3, 1] \<and> processedUsers st = 10 \<and> errors st = 0)"
proof -
  let ?cfg = "config_of ''u'' ''k'' 10 3 2"
  have t: "seeding_totalUsers ?cfg = 10" and b: "seeding_batchSize ?cfg = 3"
    by (simp_all add: config_of_def)
  have plan: "spec_batches 10 3 = [(0, 3), (1, 3), (2, 3), (3, 1)]"
    by (simp add: spec_batches_div batch_range_def upt_rec)
  have h: "1 \<le> seeding_totalUsers ?cfg" "1 \<le> seeding_batchSize ?cfg"
    by (simp_all add: t b)
  note main = batches_per_policy[OF h, of quiet_world]
  have "\<exists>st. BatchSeeder_seedUsers quiet_world ?cfg = Some st \<and>
      map snd (calls st) = [3, 3, 3, 1] \<and> processedUsers st = 10 \<and> errors st = 0"
    using main[THEN conjunct1] quiet_world_never_fails by (auto simp: t b plan)
  moreover have "\<exists>st. reachable quiet_world ?cfg st \<and> phase st = Finished \<and>
      map snd (calls st) = [3, 3, 3, 1] \<and> processedUsers st = 10 \<and> errors st = 0"
    using main[THEN conjunct2, THEN conjunct1] ten_by_three_run quiet_world_never_fails
    by (auto simp: t b plan)
  moreover have "\<exists>st. ConservativeSeeder_seedUsers quiet_world ?cfg = Some st \<and>
      map snd (calls st) = [3, 3, 3, 1] \<and> processedUsers st = 10 \<and> errors st = 0"
    using main[THEN conjunct2, THEN conjunct2, THEN conjunct1] quiet_world_never_fails
    by (auto simp: t b plan)
  ultimately show ?thesis using h quiet_world_never_fails by blast
qed


section \<open>C1: the counters add up to the total\<close>

lemma length_filter_zip_fst:
  "length is = length us \<Longrightarrow>
   length (filter (\<lambda>(i, u). P i) (zip is us)) = length (filter P is)"
  by (induction "is" us rule: list_induct2) auto

lemma failures_allSettled_count:
  assumes "\<And>i u. (createUser w k i u \<noteq> None) = bad i"
  shows "failures (allSettled w k 0 users) = length (filter bad [0 ..< length users])"
proof -
  have "failures (allSettled w k 0 users) =
        length (filter (\<lambda>(i, u). bad i) (zip [0 ..< length users] users))"
  proof -
    have "((\<lambda>r. r \<noteq> None) \<circ> (\<lambda>(x, y). createUser w k x y)) p = (\<lambda>(i, u). bad i) p" for p
      by (cases p) (simp only: comp_apply case_prod_conv assms)
    then have "((\<lambda>r. r \<noteq> None) \<circ> (\<lambda>(x, y). createUser w k x y)) = (\<lambda>(i, u). bad i)"
      by (rule ext)
    then show ?thesis
      unfolding failures_def allSettled_def filter_map length_map by simp
  qed
  then show ?thesis by (simp add: length_filter_zip_fst)
qed

lemma upt_shift: "[m ..< m + s] = map (\<lambda>i. m + i) [0 ..< s]"
  by (induction s) simp_all

lemma count_global_step:
  fixes B :: "int \<Rightarrow> bool"
  assumes "0 \<le> m" "0 \<le> s"
  shows "length (filter (\<lambda>g. B (int g)) [0 ..< nat (m + s)]) =
         length (filter (\<lambda>g. B (int g)) [0 ..< nat m]) +
         length (filter (\<lambda>i. B (m + int i)) [0 ..< nat s])"
proof -
  have "[0 ..< nat m + nat s] = [0 ..< nat m] @ [nat m ..< nat m + nat s]"
    by (rule upt_add_eq_append) simp
  then have "[0 ..< nat (m + s)] = [0 ..< nat m] @ [nat m ..< nat m + nat s]"
    using assms by (simp only: nat_add_distrib)
  moreover have "length (filter (\<lambda>g. B (int g)) [nat m ..< nat m + nat s]) =
                 length (filter (\<lambda>i. B (m + int i)) [0 ..< nat s])"
    unfolding upt_shift[of "nat m" "nat s"] filter_map length_map
    using assms(1) by (simp add: comp_def)
  ultimately show ?thesis by simp
qed

lemma sum_failures_global:
  fixes t b :: int and B :: "int \<Rightarrow> bool"
  assumes "1 \<le> b" "0 \<le> t" "int j \<le> - ((- t) div b)"
  shows "(\<Sum>q\<leftarrow>batch_range (int j).
            int (length (filter (\<lambda>i. B (q * b + int i)) [0 ..< nat (currentBatchSize t b q)]))) =
         int (length (filter (\<lambda>g. B (int g)) [0 ..< nat (min t (int j * b))]))"
  using assms(3)
proof (induction j)
  case 0
  then show ?case by (simp add: batch_range_def)
next
  case (Suc j)
  have lt: "int j < - ((- t) div b)" using Suc.prems by simp
  have below: "int j * b < t" by (rule batch_index_below[OF assms(1) _ lt]) simp
  have m0: "0 \<le> int j * b" using assms(1) by simp
  have s0: "0 \<le> currentBatchSize t b (int j)"
    using currentBatchSize_bounds(1)[OF assms(1) _ lt] by simp
  have next_min: "min t (int (Suc j) * b) = int j * b + currentBatchSize t b (int j)"
    using below by (simp add: currentBatchSize_def Let_def algebra_simps min_def)
  have prev_min: "min t (int j * b) = int j * b" using below by simp
  have "(\<Sum>q\<leftarrow>batch_range (int (Suc j)).
            int (length (filter (\<lambda>i. B (q * b + int i)) [0 ..< nat (currentBatchSize t b q)]))) =
        int (length (filter (\<lambda>g. B (int g)) [0 ..< nat (int j * b)])) +
        int (length (filter (\<lambda>i. B (int j * b + int i)) [0 ..< nat (currentBatchSize t b (int j))]))"
    using Suc.IH lt batch_range_step[of "int j"] by (simp add: add.commute prev_min)
  also have "\<dots> = int (length (filter (\<lambda>g. B (int g)) [0 ..< nat (min t (int (Suc j) * b))]))"
    unfolding next_min count_global_step[OF m0 s0] by simp
  finally show ?case .
qed

lemma sum_failures_global_total:
  fixes B :: "int \<Rightarrow> bool"
  assumes b: "1 \<le> seeding_batchSize cfg" and t: "0 \<le> seeding_totalUsers cfg"
    and nf: "\<forall>k. generator_throws w k = None"
    and bad: "\<And>k i u. (admin_createUser w k i 1 u \<noteq> None) = B (k * seeding_batchSize cfg + int i)"
  shows "(\<Sum>q\<leftarrow>final_range cfg. snd (delta_of w cfg q)) =
         int (length (filter (\<lambda>g. B (int g)) [0 ..< nat (seeding_totalUsers cfg)]))"
proof -
  let ?t = "seeding_totalUsers cfg" and ?b = "seeding_batchSize cfg"
  let ?n = "- ((- ?t) div ?b)"
  have b0: "?b \<noteq> 0" using b by simp
  have n: "0 \<le> ?n" by (rule batches_nonneg[OF t b])
  have d: "snd (delta_of w cfg q) =
           int (length (filter (\<lambda>i. B (q * ?b + int i)) [0 ..< nat (currentBatchSize ?t ?b q)]))" for q
  proof -
    from generate_no_fault[of w q cfg "size_of cfg q"] nf
    obtain users where u: "generate w cfg q (size_of cfg q) = Inr users" by auto
    have "failures (allSettled w q 0 users) =
          length (filter (\<lambda>i. B (q * ?b + int i)) [0 ..< length users])"
      by (rule failures_allSettled_count) (unfold createUser_def, rule bad)
    with u generate_length[OF u] show ?thesis
      by (simp add: delta_of_def batch_delta_def size_of_def)
  qed
  have "(\<Sum>q\<leftarrow>final_range cfg. snd (delta_of w cfg q)) =
        int (length (filter (\<lambda>g. B (int g)) [0 ..< nat (min ?t (int (nat ?n) * ?b))]))"
    using sum_failures_global[OF b t, of "nat ?n" B] n
    by (simp add: final_range_div[OF b0] d)
  moreover have "min ?t (int (nat ?n) * ?b) = ?t"
    using ceil_bounds(1)[OF b, of ?t] n by simp
  ultimately show ?thesis by simp
qed

lemma dvd_int_nat: "(5 dvd int g) = (5 dvd g)"
  using int_dvd_int_iff[of 5 g] by simp

lemma processed_from_errors:
  assumes "p + e = t" and "e = int (length (filter P [0 ..< nat t]))" and "0 \<le> t"
  shows "p = int (length (filter (\<lambda>g. \<not> P g) [0 ..< nat t]))"
proof -
  have "length (filter P [0 ..< nat t]) + length (filter (\<lambda>g. \<not> P g) [0 ..< nat t]) = nat t"
    using sum_length_filter_compl[of P "[0 ..< nat t]"] by simp
  with assms show ?thesis by linarith
qed

text \<open>
  C1, as stated, fails for a configuration with a negative total: \<^verbatim>\<open>TOTAL_USERS=-5\<close> with a
  batch size of 3 gives \<open>Math.ceil(-5 / 3) = -1\<close> batches, the loop body never runs,
  no exception occurs, and the run completes with both counters 0, which is not the
  total.
\<close>

theorem negative_total_counterexample:
  "BatchSeeder_seedUsers quiet_world (config_of ''u'' ''k'' (- 5) 3 5) \<noteq> None \<and>
   processedUsers (the (BatchSeeder_seedUsers quiet_world (config_of ''u'' ''k'' (- 5) 3 5))) +
   errors (the (BatchSeeder_seedUsers quiet_world (config_of ''u'' ''k'' (- 5) 3 5))) = 0 \<and>
   seeding_totalUsers (config_of ''u'' ''k'' (- 5) 3 5) = - 5 \<and>
   generator_throws quiet_world = (\<lambda>k. None)"
  by (simp add: BatchSeeder_seedUsers_def seedUsers_seq_def Math_ceil_div_eq for_batches_done
      new_seeder_def config_of_def quiet_world_def)

text \<open>
  C1 (amended). For every configuration with a total of at least 0 and a batch size of
  at least 1, and every assignment of outcomes to the records in which no generator
  exception occurs, \<open>processedUsers + errors\<close> equals the total when the run is complete:
  the chunked and the conservative run do complete, and so it is in every finished state
  of the concurrent run, which has one when the number of slots is at least 1. If the
  creator fails exactly the records whose index in the
  run, \<open>batchIndex * batchSize + i\<close>, is a multiple of 5, then under the chunked and the
  concurrent policy \<open>errors\<close> is the number of multiples of 5 below the total and
  \<open>processedUsers\<close> the number of the other indices.
\<close>

theorem counters_add_up:
  assumes "0 \<le> seeding_totalUsers cfg" and "1 \<le> seeding_batchSize cfg"
    and "\<forall>k. generator_throws w k = None"
  shows
    "(\<exists>st. BatchSeeder_seedUsers w cfg = Some st \<and>
        processedUsers st + errors st = seeding_totalUsers cfg) \<and>
     (\<exists>st. ConservativeSeeder_seedUsers w cfg = Some st \<and>
        processedUsers st + errors st = seeding_totalUsers cfg) \<and>
     (\<forall>st. reachable w cfg st \<and> phase st = Finished \<longrightarrow>
        processedUsers st + errors st = seeding_totalUsers cfg) \<and>
     ((\<forall>k i u. (admin_createUser w k i 1 u \<noteq> None) = (5 dvd (k * seeding_batchSize cfg + int i))) \<longrightarrow>
        (\<exists>st. BatchSeeder_seedUsers w cfg = Some st \<and>
           errors st = int (length (filter (\<lambda>g. 5 dvd g) [0 ..< nat (seeding_totalUsers cfg)])) \<and>
           processedUsers st =
             int (length (filter (\<lambda>g. \<not> 5 dvd g) [0 ..< nat (seeding_totalUsers cfg)]))) \<and>
        (\<forall>st. reachable w cfg st \<and> phase st = Finished \<longrightarrow>
           errors st = int (length (filter (\<lambda>g. 5 dvd g) [0 ..< nat (seeding_totalUsers cfg)])) \<and>
           processedUsers st =
             int (length (filter (\<lambda>g. \<not> 5 dvd g) [0 ..< nat (seeding_totalUsers cfg)])))) \<and>
     (1 \<le> seeding_concurrentBatches cfg \<and> seeding_concurrentBatches cfg \<le> 4294967295 \<longrightarrow>
        (\<exists>st. reachable w cfg st \<and> phase st = Finished))"
proof -
  let ?t = "seeding_totalUsers cfg"
  let ?c = "conservative_config cfg"
  have b0: "seeding_batchSize cfg \<noteq> 0" using assms(2) by simp
  have cb: "1 \<le> seeding_batchSize ?c" and ct: "0 \<le> seeding_totalUsers ?c"
    and cb0: "seeding_batchSize ?c \<noteq> 0"
    using assms by (simp_all add: conservative_config_simps)
  have sum1: "(\<Sum>q\<leftarrow>final_range cfg. fst (delta_of w cfg q)) +
              (\<Sum>q\<leftarrow>final_range cfg. snd (delta_of w cfg q)) = ?t"
    unfolding delta_of_def
    by (rule total_conserved[OF assms(2,1) length_allSettled assms(3)])
  have sum2: "(\<Sum>q\<leftarrow>final_range ?c. fst (retry_delta_of w ?c q)) +
              (\<Sum>q\<leftarrow>final_range ?c. snd (retry_delta_of w ?c q)) = ?t"
    using total_conserved[of ?c "\<lambda>k. retrySettled w k 0" w, OF cb ct length_retrySettled assms(3)]
    by (simp add: retry_delta_of_def conservative_config_simps)
  have chunked: "\<exists>st. BatchSeeder_seedUsers w cfg = Some st \<and> processedUsers st + errors st = ?t"
    using BatchSeeder_final[OF batches_finite[OF b0], of w] sum1 by auto
  have conservative:
    "\<exists>st. ConservativeSeeder_seedUsers w cfg = Some st \<and> processedUsers st + errors st = ?t"
    using ConservativeSeeder_final[OF batches_finite[OF cb0], of w] sum2 by auto
  have concurrent:
    "\<forall>st. reachable w cfg st \<and> phase st = Finished \<longrightarrow> processedUsers st + errors st = ?t"
    using AuthUserSeeder_final[of w cfg] sum1 by auto
  have stub: "(\<exists>st. BatchSeeder_seedUsers w cfg = Some st \<and>
           errors st = int (length (filter (\<lambda>g. 5 dvd g) [0 ..< nat ?t])) \<and>
           processedUsers st = int (length (filter (\<lambda>g. \<not> 5 dvd g) [0 ..< nat ?t]))) \<and>
        (\<forall>st. reachable w cfg st \<and> phase st = Finished \<longrightarrow>
           errors st = int (length (filter (\<lambda>g. 5 dvd g) [0 ..< nat ?t])) \<and>
           processedUsers st = int (length (filter (\<lambda>g. \<not> 5 dvd g) [0 ..< nat ?t])))"
    if bad: "\<forall>k i u. (admin_createUser w k i 1 u \<noteq> None) = (5 dvd (k * seeding_batchSize cfg + int i))"
  proof -
    have e: "(\<Sum>q\<leftarrow>final_range cfg. snd (delta_of w cfg q)) =
             int (length (filter (\<lambda>g. 5 dvd g) [0 ..< nat ?t]))"
      using sum_failures_global_total[of cfg w "\<lambda>x. 5 dvd x", OF assms(2,1,3)] bad
      by (simp add: dvd_int_nat)
    have p: "(\<Sum>q\<leftarrow>final_range cfg. fst (delta_of w cfg q)) =
             int (length (filter (\<lambda>g. \<not> 5 dvd g) [0 ..< nat ?t]))"
      by (rule processed_from_errors[OF sum1 e assms(1)])
    show ?thesis
      using BatchSeeder_final[OF batches_finite[OF b0], of w] AuthUserSeeder_final[of w cfg] e p
      by auto
  qed
  have finishes:
    "1 \<le> seeding_concurrentBatches cfg \<and> seeding_concurrentBatches cfg \<le> 4294967295 \<longrightarrow>
       (\<exists>st. reachable w cfg st \<and> phase st = Finished)"
    using run_can_finish[OF _ _ batches_finite[OF b0], of w] by blast
  from chunked conservative concurrent stub finishes show ?thesis by blast
qed

lemma stub_run_finishes:
  "reachable (multiple_of_5_world 3) (config_of ''u'' ''k'' 10 3 2)
     (run (multiple_of_5_world 3) (config_of ''u'' ''k'' 10 3 2)
        [MainLoop, MainLoop, AllSettled 1, AllSettled 0, Finally 0, Finally 1, MainLoop,
         MainLoop, AllSettled 0, AllSettled 1, Finally 1, Finally 0, MainLoop, MainLoop]
        (projr (seedUsers_start (config_of ''u'' ''k'' 10 3 2)))) \<and>
   phase (run (multiple_of_5_world 3) (config_of ''u'' ''k'' 10 3 2)
        [MainLoop, MainLoop, AllSettled 1, AllSettled 0, Finally 0, Finally 1, MainLoop,
         MainLoop, AllSettled 0, AllSettled 1, Finally 1, Finally 0, MainLoop, MainLoop]
        (projr (seedUsers_start (config_of ''u'' ''k'' 10 3 2)))) = Finished"
proof -
  have start: "seedUsers_start (config_of ''u'' ''k'' 10 3 2) =
      Inr (projr (seedUsers_start (config_of ''u'' ''k'' 10 3 2)))"
    by (simp add: seedUsers_start_def config_of_def)
  have "phase (run (multiple_of_5_world 3) (config_of ''u'' ''k'' 10 3 2)
        [MainLoop, MainLoop, AllSettled 1, AllSettled 0, Finally 0, Finally 1, MainLoop,
         MainLoop, AllSettled 0, AllSettled 1, Finally 1, Finally 0, MainLoop, MainLoop]
        (projr (seedUsers_start (config_of ''u'' ''k'' 10 3 2)))) = Finished"
    by (simp add: seedUsers_start_def config_of_def quiet_world_def multiple_of_5_world_def
        run_def main_loop_def Math_ceil_div_eq availableSlots_def dispatch_def
        processBatch_start_def generate_def currentBatchSize_def all_settled_def
        finally_callback_def tally_def Let_def numeral_2_eq_2)
  with start show ?thesis unfolding reachable_def by blast
qed

text \<open>
  An instance of C1: 10 records in batches of 3, with a creator that fails the records 0
  and 5 of the run, give 8 accounts and 2 errors; the concurrent run does finish.
\<close>

theorem counters_add_up_witness:
  "0 \<le> seeding_totalUsers (config_of ''u'' ''k'' 10 3 2) \<and>
   1 \<le> seeding_batchSize (config_of ''u'' ''k'' 10 3 2) \<and>
   (\<forall>k. generator_throws (multiple_of_5_world 3) k = None) \<and>
   (\<forall>k i u. (admin_createUser (multiple_of_5_world 3) k i 1 u \<noteq> None) =
      (5 dvd (k * seeding_batchSize (config_of ''u'' ''k'' 10 3 2) + int i))) \<and>
   (\<exists>st. BatchSeeder_seedUsers (multiple_of_5_world 3) (config_of ''u'' ''k'' 10 3 2) = Some st \<and>
      processedUsers st = 8 \<and> errors st = 2) \<and>
   (\<exists>st. reachable (multiple_of_5_world 3) (config_of ''u'' ''k'' 10 3 2) st \<and>
      phase st = Finished \<and> processedUsers st = 8 \<and> errors st = 2) \<and>
   (\<exists>st. ConservativeSeeder_seedUsers (multiple_of_5_world 3) (config_of ''u'' ''k'' 10 3 2) =
      Some st \<and> processedUsers st + errors st = 10)"
proof -
  let ?cfg = "config_of ''u'' ''k'' 10 3 2"
  let ?w = "multiple_of_5_world 3"
  have t: "seeding_totalUsers ?cfg = 10" and b: "seeding_batchSize ?cfg = 3"
    by (simp_all add: config_of_def)
  have h: "0 \<le> seeding_totalUsers ?cfg" "1 \<le> seeding_batchSize ?cfg"
    "\<forall>k. generator_throws ?w k = None"
    by (simp_all add: t b multiple_of_5_world_def quiet_world_def)
  have bad: "\<forall>k i u. (admin_createUser ?w k i 1 u \<noteq> None) =
      (5 dvd (k * seeding_batchSize ?cfg + int i))"
    by (simp add: multiple_of_5_world_def b)
  have ten: "[0 ..< nat 10] = [0, 1, 2, 3, 4, 5, 6, 7, 8, 9]"
    by (simp add: upt_rec)
  have n5: "length (filter (\<lambda>g. 5 dvd g) [0 ..< nat 10]) = 2"
    and m5: "length (filter (\<lambda>g. \<not> 5 dvd g) [0 ..< nat 10]) = 8"
    unfolding ten by simp_all
  note main = counters_add_up[OF h]
  from main bad have stub:
    "(\<exists>st. BatchSeeder_seedUsers ?w ?cfg = Some st \<and>
           errors st = int (length (filter (\<lambda>g. 5 dvd g) [0 ..< nat (seeding_totalUsers ?cfg)])) \<and>
           processedUsers st =
             int (length (filter (\<lambda>g. \<not> 5 dvd g) [0 ..< nat (seeding_totalUsers ?cfg)]))) \<and>
     (\<forall>st. reachable ?w ?cfg st \<and> phase st = Finished \<longrightarrow>
           errors st = int (length (filter (\<lambda>g. 5 dvd g) [0 ..< nat (seeding_totalUsers ?cfg)])) \<and>
           processedUsers st =
             int (length (filter (\<lambda>g. \<not> 5 dvd g) [0 ..< nat (seeding_totalUsers ?cfg)])))"
    by blast
  have "\<exists>st. BatchSeeder_seedUsers ?w ?cfg = Some st \<and> processedUsers st = 8 \<and> errors st = 2"
    using stub[THEN conjunct1] unfolding t n5 m5 by auto
  moreover have "\<exists>st. reachable ?w ?cfg st \<and> phase st = Finished \<and>
      processedUsers st = 8 \<and> errors st = 2"
    using stub[THEN conjunct2] stub_run_finishes unfolding t n5 m5 by auto
  moreover have "\<exists>st. ConservativeSeeder_seedUsers ?w ?cfg = Some st \<and>
      processedUsers st + errors st = 10"
    using main[THEN conjunct2, THEN conjunct1] unfolding t by auto
  ultimately show ?thesis using h bad by blast
qed


section \<open>C5: a batch exception is absorbed\<close>

lemma delta_of_snd:
  "snd (delta_of w cfg q) =
     (case generate w cfg q (size_of cfg q) of
        Inl e \<Rightarrow> size_of cfg q
      | Inr users \<Rightarrow> int (failed_records w q users))"
  by (simp add: delta_of_def batch_delta_def failures_allSettled split: sum.splits)

lemma retry_delta_of_snd:
  "snd (retry_delta_of w cfg q) =
     (case generate w cfg q (size_of cfg q) of
        Inl e \<Rightarrow> size_of cfg q
      | Inr users \<Rightarrow> int (failed_records_with_retry w q users))"
  by (simp add: retry_delta_of_def batch_delta_def failures_retrySettled split: sum.splits)

text \<open>
  C5. In every policy an exception of the generator is caught at the batch boundary: the
  batch adds its requested size to \<open>errors\<close> and nothing to \<open>processedUsers\<close>. The run
  goes on: whatever the generator and the remote creator do, a run with finitely many
  batches dispatches every batch, in order, and ends with \<open>errors\<close> holding the size of
  each batch whose generator threw and, for each other batch, the number of its records
  that the remote creator failed (after the retries, in the conservative policy). The
  sequential runs return, and their \<^verbatim>\<open>main\<close> leaves with status 0 once the client has been
  constructed; \<^verbatim>\<open>main\<close> of index.ts, once the configuration is valid, reports no failure
  under any schedule and leaves with status 0 when the run has finished. The concurrent run, with at least one slot, cannot be stuck and cannot go
  on for ever: every event leaves the state as it is or takes work off, so that a
  schedule changes the state at most \<open>work_left\<close> times; every state that is not
  finished has an event that takes work off; and so from every state the finished state
  is at most \<open>work_left\<close> events away.
\<close>

theorem batch_exception_absorbed:
  fixes st :: seeder and cst :: AuthUserSeeder
  shows
    "(generate w cfg k s = Inl e \<longrightarrow>
        BatchSeeder_processBatch w cfg k s st =
          st\<lparr>calls := calls st @ [(k, s)], errors := errors st + s\<rparr> \<and>
        processBatchConservative w cfg k s st =
          st\<lparr>calls := calls st @ [(k, s)], errors := errors st + s\<rparr> \<and>
        processBatch_start w cfg k s cst =
          (Completing k,
           cst\<lparr>calls := calls cst @ [(k, s)], in_flight := in_flight cst @ [k],
               errors := errors cst + s\<rparr>)) \<and>
     (batches_of cfg \<noteq> PosInfinity \<longrightarrow>
        (\<exists>st'. BatchSeeder_seedUsers w cfg = Some st' \<and>
           (createClient (supabase_url cfg) (supabase_serviceRoleKey cfg) = None \<longrightarrow>
              main_batch createClient w cfg =
                \<lparr>exit_code = Some 0, console_error = [], seeded = Some st'\<rparr>) \<and>
           map fst (calls st') = final_range cfg \<and>
           errors st' =
             (\<Sum>q\<leftarrow>final_range cfg.
                case generate w cfg q (size_of cfg q) of
                  Inl e \<Rightarrow> size_of cfg q
                | Inr users \<Rightarrow> int (failed_records w q users))) \<and>
        (\<exists>st'. ConservativeSeeder_seedUsers w cfg = Some st' \<and>
           (createClient (supabase_url cfg) (supabase_serviceRoleKey cfg) = None \<longrightarrow>
              main_conservative createClient w cfg =
                \<lparr>exit_code = Some 0, console_error = [], seeded = Some st'\<rparr>) \<and>
           map fst (calls st') = final_range (conservative_config cfg) \<and>
           errors st' =
             (\<Sum>q\<leftarrow>final_range (conservative_config cfg).
                case generate w cfg q (size_of (conservative_config cfg) q) of
                  Inl e \<Rightarrow> size_of (conservative_config cfg) q
                | Inr users \<Rightarrow> int (failed_records_with_retry w q users))) \<and>
        (\<forall>cst'. reachable w cfg cst' \<and> phase cst' = Finished \<longrightarrow>
           map fst (calls cst') = final_range cfg \<and>
           errors cst' =
             (\<Sum>q\<leftarrow>final_range cfg.
                case generate w cfg q (size_of cfg q) of
                  Inl e \<Rightarrow> size_of cfg q
                | Inr users \<Rightarrow> int (failed_records w q users))) \<and>
        (1 \<le> seeding_concurrentBatches cfg \<longrightarrow>
           (\<forall>cst' ev. step w cfg cst' ev = cst' \<or>
              work_left cfg (step w cfg cst' ev) < work_left cfg cst') \<and>
           (\<forall>cst' schedule.
              effective_events w cfg cst' schedule + work_left cfg (run w cfg schedule cst')
                \<le> work_left cfg cst') \<and>
           (\<forall>cst'. reachable w cfg cst' \<and> phase cst' \<noteq> Finished \<longrightarrow>
              (\<exists>ev. work_left cfg (step w cfg cst' ev) < work_left cfg cst')) \<and>
           (\<forall>cst'. reachable w cfg cst' \<longrightarrow>
              (\<exists>schedule. length schedule \<le> work_left cfg cst' \<and>
                 phase (run w cfg schedule cst') = Finished)))) \<and>
     (validateConfig cfg = Inr () \<and>
      createClient (supabase_url cfg) (supabase_serviceRoleKey cfg) = None \<and>
      0 \<le> seeding_concurrentBatches cfg \<and> seeding_concurrentBatches cfg \<le> 4294967295 \<longrightarrow>
        (\<forall>schedule. exit_code (main_index createClient w cfg schedule) \<noteq> Some 1 \<and>
           console_error (main_index createClient w cfg schedule) = [] \<and>
           (\<exists>cst'. seeded (main_index createClient w cfg schedule) = Some cst' \<and>
              reachable w cfg cst' \<and>
              (exit_code (main_index createClient w cfg schedule) = Some 0 \<longleftrightarrow>
                 phase cst' = Finished))))"
proof -
  have caught: "BatchSeeder_processBatch w cfg k s st =
          st\<lparr>calls := calls st @ [(k, s)], errors := errors st + s\<rparr> \<and>
        processBatchConservative w cfg k s st =
          st\<lparr>calls := calls st @ [(k, s)], errors := errors st + s\<rparr> \<and>
        processBatch_start w cfg k s cst =
          (Completing k,
           cst\<lparr>calls := calls cst @ [(k, s)], in_flight := in_flight cst @ [k],
               errors := errors cst + s\<rparr>)"
    if "generate w cfg k s = Inl e"
    using that
    by (simp add: BatchSeeder_processBatch_def processBatchConservative_def
        processBatch_start_def Let_def)
  have rest: "(\<exists>st'. BatchSeeder_seedUsers w cfg = Some st' \<and>
           (createClient (supabase_url cfg) (supabase_serviceRoleKey cfg) = None \<longrightarrow>
              main_batch createClient w cfg =
                \<lparr>exit_code = Some 0, console_error = [], seeded = Some st'\<rparr>) \<and>
           map fst (calls st') = final_range cfg \<and>
           errors st' =
             (\<Sum>q\<leftarrow>final_range cfg.
                case generate w cfg q (size_of cfg q) of
                  Inl e \<Rightarrow> size_of cfg q
                | Inr users \<Rightarrow> int (failed_records w q users))) \<and>
        (\<exists>st'. ConservativeSeeder_seedUsers w cfg = Some st' \<and>
           (createClient (supabase_url cfg) (supabase_serviceRoleKey cfg) = None \<longrightarrow>
              main_conservative createClient w cfg =
                \<lparr>exit_code = Some 0, console_error = [], seeded = Some st'\<rparr>) \<and>
           map fst (calls st') = final_range (conservative_config cfg) \<and>
           errors st' =
             (\<Sum>q\<leftarrow>final_range (conservative_config cfg).
                case generate w cfg q (size_of (conservative_config cfg) q) of
                  Inl e \<Rightarrow> size_of (conservative_config cfg) q
                | Inr users \<Rightarrow> int (failed_records_with_retry w q users))) \<and>
        (\<forall>cst'. reachable w cfg cst' \<and> phase cst' = Finished \<longrightarrow>
           map fst (calls cst') = final_range cfg \<and>
           errors cst' =
             (\<Sum>q\<leftarrow>final_range cfg.
                case generate w cfg q (size_of cfg q) of
                  Inl e \<Rightarrow> size_of cfg q
                | Inr users \<Rightarrow> int (failed_records w q users))) \<and>
        (1 \<le> seeding_concurrentBatches cfg \<longrightarrow>
           (\<forall>cst' ev. step w cfg cst' ev = cst' \<or>
              work_left cfg (step w cfg cst' ev) < work_left cfg cst') \<and>
           (\<forall>cst' schedule.
              effective_events w cfg cst' schedule + work_left cfg (run w cfg schedule cst')
                \<le> work_left cfg cst') \<and>
           (\<forall>cst'. reachable w cfg cst' \<and> phase cst' \<noteq> Finished \<longrightarrow>
              (\<exists>ev. work_left cfg (step w cfg cst' ev) < work_left cfg cst')) \<and>
           (\<forall>cst'. reachable w cfg cst' \<longrightarrow>
              (\<exists>schedule. length schedule \<le> work_left cfg cst' \<and>
                 phase (run w cfg schedule cst') = Finished)))"
    if fin: "batches_of cfg \<noteq> PosInfinity"
  proof -
    let ?c = "conservative_config cfg"
    have cfin: "batches_of ?c \<noteq> PosInfinity" using fin by (simp add: batches_of_conservative)
    have 1: "\<exists>st'. BatchSeeder_seedUsers w cfg = Some st' \<and>
           (createClient (supabase_url cfg) (supabase_serviceRoleKey cfg) = None \<longrightarrow>
              main_batch createClient w cfg =
                \<lparr>exit_code = Some 0, console_error = [], seeded = Some st'\<rparr>) \<and>
           map fst (calls st') = final_range cfg \<and>
           errors st' =
             (\<Sum>q\<leftarrow>final_range cfg.
                case generate w cfg q (size_of cfg q) of
                  Inl e \<Rightarrow> size_of cfg q
                | Inr users \<Rightarrow> int (failed_records w q users))"
      using BatchSeeder_final[OF fin, of w]
      by (auto simp: map_fst_calls delta_of_snd main_batch_def main_sequential_def)
    have 2: "\<exists>st'. ConservativeSeeder_seedUsers w cfg = Some st' \<and>
           (createClient (supabase_url cfg) (supabase_serviceRoleKey cfg) = None \<longrightarrow>
              main_conservative createClient w cfg =
                \<lparr>exit_code = Some 0, console_error = [], seeded = Some st'\<rparr>) \<and>
           map fst (calls st') = final_range ?c \<and>
           errors st' =
             (\<Sum>q\<leftarrow>final_range ?c.
                case generate w cfg q (size_of ?c q) of
                  Inl e \<Rightarrow> size_of ?c q
                | Inr users \<Rightarrow> int (failed_records_with_retry w q users))"
      using ConservativeSeeder_final[OF cfin, of w]
      by (auto simp: map_fst_calls retry_delta_of_snd main_conservative_def main_sequential_def
          generate_conservative_config)
    have 3: "\<forall>cst'. reachable w cfg cst' \<and> phase cst' = Finished \<longrightarrow>
           map fst (calls cst') = final_range cfg \<and>
           errors cst' =
             (\<Sum>q\<leftarrow>final_range cfg.
                case generate w cfg q (size_of cfg q) of
                  Inl e \<Rightarrow> size_of cfg q
                | Inr users \<Rightarrow> int (failed_records w q users))"
      using AuthUserSeeder_final[of w cfg] by (auto simp: map_fst_calls delta_of_snd)
    have 4: "(\<forall>cst' ev. step w cfg cst' ev = cst' \<or>
              work_left cfg (step w cfg cst' ev) < work_left cfg cst') \<and>
           (\<forall>cst' schedule.
              effective_events w cfg cst' schedule + work_left cfg (run w cfg schedule cst')
                \<le> work_left cfg cst') \<and>
           (\<forall>cst'. reachable w cfg cst' \<and> phase cst' \<noteq> Finished \<longrightarrow>
              (\<exists>ev. work_left cfg (step w cfg cst' ev) < work_left cfg cst')) \<and>
           (\<forall>cst'. reachable w cfg cst' \<longrightarrow>
              (\<exists>schedule. length schedule \<le> work_left cfg cst' \<and>
                 phase (run w cfg schedule cst') = Finished))"
      if c: "1 \<le> seeding_concurrentBatches cfg"
      using step_work[OF fin, of w] progress_possible[OF _ _ fin c, of w]
        finishes_from[OF fin c, of w] effective_events_bound[OF fin, of w]
      by blast
    from 1 2 3 4 show ?thesis by blast
  qed
  have index: "\<forall>schedule. exit_code (main_index createClient w cfg schedule) \<noteq> Some 1 \<and>
           console_error (main_index createClient w cfg schedule) = [] \<and>
           (\<exists>cst'. seeded (main_index createClient w cfg schedule) = Some cst' \<and>
              reachable w cfg cst' \<and>
              (exit_code (main_index createClient w cfg schedule) = Some 0 \<longleftrightarrow>
                 phase cst' = Finished))"
    if h: "validateConfig cfg = Inr () \<and>
      createClient (supabase_url cfg) (supabase_serviceRoleKey cfg) = None \<and>
      0 \<le> seeding_concurrentBatches cfg \<and> seeding_concurrentBatches cfg \<le> 4294967295"
  proof
    fix schedule
    obtain st0 where st0: "seedUsers_start cfg = Inr st0"
      using h by (simp add: seedUsers_start_def Let_def)
    have m: "main_index createClient w cfg schedule =
        \<lparr>exit_code = (if phase (run w cfg schedule st0) = Finished then Some 0 else None),
         console_error = [], seeded = Some (run w cfg schedule st0)\<rparr>"
      using h st0 by (simp add: main_index_def Let_def)
    have "reachable w cfg (run w cfg schedule st0)"
      unfolding reachable_def using st0 by blast
    then show "exit_code (main_index createClient w cfg schedule) \<noteq> Some 1 \<and>
           console_error (main_index createClient w cfg schedule) = [] \<and>
           (\<exists>cst'. seeded (main_index createClient w cfg schedule) = Some cst' \<and>
              reachable w cfg cst' \<and>
              (exit_code (main_index createClient w cfg schedule) = Some 0 \<longleftrightarrow>
                 phase cst' = Finished))"
      unfolding m by simp
  qed
  from caught rest index show ?thesis by blast
qed

lemma faulty_run_finishes:
  "phase (run generator_fault_world
        (config_of ''https://project.supabase.co'' ''service-role-key'' 10 3 2)
        [MainLoop, MainLoop, AllSettled 0, Finally 1, Finally 0, MainLoop, MainLoop,
         AllSettled 1, AllSettled 0, Finally 0, Finally 1, MainLoop, MainLoop]
        (projr (seedUsers_start
          (config_of ''https://project.supabase.co'' ''service-role-key'' 10 3 2)))) = Finished \<and>
   length (filter (\<lambda>slot. slot \<noteq> None)
     (semaphore (run generator_fault_world
        (config_of ''https://project.supabase.co'' ''service-role-key'' 10 3 2)
        [MainLoop, MainLoop]
        (projr (seedUsers_start
          (config_of ''https://project.supabase.co'' ''service-role-key'' 10 3 2)))))) = 2"
  by (simp add: seedUsers_start_def config_of_def quiet_world_def generator_fault_world_def
      run_def main_loop_def Math_ceil_div_eq availableSlots_def dispatch_def
      processBatch_start_def generate_def currentBatchSize_def all_settled_def
      finally_callback_def tally_def Let_def numeral_2_eq_2)

text \<open>
  An instance of C5: the generator of batch 1 (of 3 records) throws and the creator
  rejects one record of batch 2; the run dispatches the batches 0 to 3 and ends with 4
  errors under each policy, the concurrent one with two batches in flight at a time.
\<close>

theorem batch_exception_absorbed_witness:
  "generate generator_fault_world
     (config_of ''https://project.supabase.co'' ''service-role-key'' 10 3 2) 1 3 =
     Inl (JsError ''generator failed'') \<and>
   BatchSeeder_processBatch generator_fault_world
     (config_of ''https://project.supabase.co'' ''service-role-key'' 10 3 2) 1 3 new_seeder =
     new_seeder\<lparr>calls := [(1, 3)], errors := 3\<rparr> \<and>
   (\<forall>u. admin_createUser generator_fault_world 2 0 1 u \<noteq> None) \<and>
   batches_of (config_of ''https://project.supabase.co'' ''service-role-key'' 10 3 2) \<noteq>
     PosInfinity \<and>
   supabase_createClient ''https://project.supabase.co'' ''service-role-key'' = None \<and>
   (\<exists>st'. BatchSeeder_seedUsers generator_fault_world
        (config_of ''https://project.supabase.co'' ''service-role-key'' 10 3 2) = Some st' \<and>
      exit_code (main_batch supabase_createClient generator_fault_world
        (config_of ''https://project.supabase.co'' ''service-role-key'' 10 3 2)) = Some 0 \<and>
      map fst (calls st') = [0, 1, 2, 3] \<and> errors st' = 4) \<and>
   (\<exists>st'. ConservativeSeeder_seedUsers generator_fault_world
        (config_of ''https://project.supabase.co'' ''service-role-key'' 10 3 2) = Some st' \<and>
      exit_code (main_conservative supabase_createClient generator_fault_world
        (config_of ''https://project.supabase.co'' ''service-role-key'' 10 3 2)) = Some 0 \<and>
      map fst (calls st') = [0, 1, 2, 3] \<and> errors st' = 4) \<and>
   (\<exists>cst'. cst' = run generator_fault_world
        (config_of ''https://project.supabase.co'' ''service-role-key'' 10 3 2)
        [MainLoop, MainLoop, AllSettled 0, Finally 1, Finally 0, MainLoop, MainLoop,
         AllSettled 1, AllSettled 0, Finally 0, Finally 1, MainLoop, MainLoop]
        (projr (seedUsers_start
          (config_of ''https://project.supabase.co'' ''service-role-key'' 10 3 2))) \<and>
      reachable generator_fault_world
        (config_of ''https://project.supabase.co'' ''service-role-key'' 10 3 2) cst' \<and>
      phase cst' = Finished \<and> map fst (calls cst') = [0, 1, 2, 3] \<and> errors cst' = 4) \<and>
   exit_code (main_index supabase_createClient generator_fault_world
        (config_of ''https://project.supabase.co'' ''service-role-key'' 10 3 2)
        [MainLoop, MainLoop, AllSettled 0, Finally 1, Finally 0, MainLoop, MainLoop,
         AllSettled 1, AllSettled 0, Finally 0, Finally 1, MainLoop, MainLoop]) = Some 0 \<and>
   1 \<le> seeding_concurrentBatches
     (config_of ''https://project.supabase.co'' ''service-role-key'' 10 3 2) \<and>
   (\<exists>schedule. length schedule \<le> 14 \<and>
      phase (run generator_fault_world
        (config_of ''https://project.supabase.co'' ''service-role-key'' 10 3 2) schedule
        (projr (seedUsers_start
          (config_of ''https://project.supabase.co'' ''service-role-key'' 10 3 2)))) = Finished)"
proof -
  let ?cfg = "config_of ''https://project.supabase.co'' ''service-role-key'' 10 3 2"
  let ?w = "generator_fault_world"
  let ?st = "new_seeder"
  let ?init = "projr (seedUsers_start ?cfg)"
  let ?sched = "[MainLoop, MainLoop, AllSettled 0, Finally 1, Finally 0, MainLoop, MainLoop,
         AllSettled 1, AllSettled 0, Finally 0, Finally 1, MainLoop, MainLoop]"
  have g: "generate ?w ?cfg 1 3 = Inl (JsError ''generator failed'')"
    by (simp add: generate_def generator_fault_world_def)
  have b0: "seeding_batchSize ?cfg \<noteq> 0" by (simp add: config_of_def)
  have c: "1 \<le> seeding_concurrentBatches ?cfg" by (simp add: config_of_def)
  have cl: "supabase_createClient (supabase_url ?cfg) (supabase_serviceRoleKey ?cfg) = None"
    "supabase_createClient ''https://project.supabase.co'' ''service-role-key'' = None"
    by (simp_all add: supabase_createClient_def config_of_def)
  have r: "final_range ?cfg = [0, 1, 2, 3]" "final_range (conservative_config ?cfg) = [0, 1, 2, 3]"
    by (simp_all add: final_range_div conservative_config_def config_of_def batch_range_def upt_rec)
  have rej: "\<forall>u. admin_createUser ?w 2 0 1 u \<noteq> None"
    by (simp add: generator_fault_world_def)
  have sz: "size_of ?cfg 0 = 3" "size_of ?cfg 1 = 3" "size_of ?cfg 2 = 3" "size_of ?cfg 3 = 1"
    "size_of (conservative_config ?cfg) 0 = 3" "size_of (conservative_config ?cfg) 1 = 3"
    "size_of (conservative_config ?cfg) 2 = 3" "size_of (conservative_config ?cfg) 3 = 1"
    by (simp_all add: size_of_eq conservative_config_def config_of_def)
  have three: "[0 ..< (3::nat)] = [0, 1, 2]" by (simp add: upt_rec)
  have gen: "generate ?w ?cfg q s =
      (if q = 1 \<and> 0 < s then Inl (JsError ''generator failed'')
       else Inr (generateUserBatch (Date_now ?w q) (random_first ?w q) (random_last ?w q) s
              (seeding_emailDomain ?cfg) (seeding_defaultPassword ?cfg)))" for q s
    by (simp add: generate_def generator_fault_world_def)
  have fr: "failed_records ?w q (generateUserBatch t f l s d p) =
      length (filter (\<lambda>i. q = 2 \<and> i = 0) [0 ..< nat s])" for q t f l s d p
    by (simp add: failed_records_def generateUserBatch_def generator_fault_world_def)
  have rf: "retry_fails (\<lambda>a. admin_createUser ?w q i a u) \<longleftrightarrow> q = 2 \<and> i = 0" for q i u
    by (simp add: retry_fails_def generator_fault_world_def isNetworkError_def)
  have frr: "failed_records_with_retry ?w q (generateUserBatch t f l s d p) =
      length (filter (\<lambda>i. q = 2 \<and> i = 0) [0 ..< nat s])" for q t f l s d p
    by (simp add: failed_records_with_retry_def generateUserBatch_def rf)
  have e1: "(\<Sum>q\<leftarrow>[0, 1, 2, 3].
      case generate ?w ?cfg q (size_of ?cfg q) of Inl e \<Rightarrow> size_of ?cfg q
      | Inr users \<Rightarrow> int (failed_records ?w q users)) = 4"
    by (simp add: sz gen fr three)
  have e2: "(\<Sum>q\<leftarrow>[0, 1, 2, 3].
      case generate ?w ?cfg q (size_of (conservative_config ?cfg) q) of
        Inl e \<Rightarrow> size_of (conservative_config ?cfg) q
      | Inr users \<Rightarrow> int (failed_records_with_retry ?w q users)) = 4"
    by (simp add: sz gen frr three)
  note main = batch_exception_absorbed[where w = ?w and cfg = ?cfg and k = 1 and s = 3
      and e = "JsError ''generator failed''" and st = ?st and cst = ?init
      and createClient = supabase_createClient]
  have fin: "batches_of ?cfg \<noteq> PosInfinity" by (rule batches_finite[OF b0])
  note run = main[THEN conjunct2, THEN conjunct1, rule_format, OF fin, unfolded r e1 e2]
  have start: "seedUsers_start ?cfg = Inr ?init"
    by (simp add: seedUsers_start_def config_of_def)
  have reach: "reachable ?w ?cfg (run ?w ?cfg ?sched ?init)"
    unfolding reachable_def using start by blast
  have reach0: "reachable ?w ?cfg ?init"
    unfolding reachable_def using start by (intro exI[of _ ?init] exI[of _ "[]"]) (simp add: run_def)
  have bo: "batches_of ?cfg = Num 4"
    using batches_of_pos[OF b0] by (simp add: config_of_def)
  have wl: "work_left ?cfg ?init = 14"
    unfolding work_left_def bo
    by (simp add: seedUsers_start_def config_of_def slot_work_def phase_work_def numeral_2_eq_2)
  have "BatchSeeder_processBatch ?w ?cfg 1 3 ?st = ?st\<lparr>calls := [(1, 3)], errors := 3\<rparr>"
    using main[THEN conjunct1] g by (simp add: new_seeder_def)
  moreover have "\<exists>st'. BatchSeeder_seedUsers ?w ?cfg = Some st' \<and>
      exit_code (main_batch supabase_createClient ?w ?cfg) = Some 0 \<and>
      map fst (calls st') = [0, 1, 2, 3] \<and> errors st' = 4"
    using run[THEN conjunct1] cl(1) by auto
  moreover have "\<exists>st'. ConservativeSeeder_seedUsers ?w ?cfg = Some st' \<and>
      exit_code (main_conservative supabase_createClient ?w ?cfg) = Some 0 \<and>
      map fst (calls st') = [0, 1, 2, 3] \<and> errors st' = 4"
    using run[THEN conjunct2, THEN conjunct1] cl(1) by auto
  moreover have "\<exists>cst'. cst' = run ?w ?cfg ?sched ?init \<and> reachable ?w ?cfg cst' \<and>
      phase cst' = Finished \<and> map fst (calls cst') = [0, 1, 2, 3] \<and> errors cst' = 4"
    using run[THEN conjunct2, THEN conjunct2, THEN conjunct1] reach
      faulty_run_finishes[THEN conjunct1] by blast
  moreover have "\<exists>schedule. length schedule \<le> 14 \<and>
      phase (run ?w ?cfg schedule ?init) = Finished"
    using run[THEN conjunct2, THEN conjunct2, THEN conjunct2, rule_format, OF c,
        THEN conjunct2, THEN conjunct2, THEN conjunct2, rule_format, OF reach0]
    unfolding wl .
  moreover have "exit_code (main_index supabase_createClient ?w ?cfg ?sched) = Some 0"
  proof -
    have v: "validateConfig ?cfg = Inr () \<and>
        supabase_createClient (supabase_url ?cfg) (supabase_serviceRoleKey ?cfg) = None \<and>
        0 \<le> seeding_concurrentBatches ?cfg \<and> seeding_concurrentBatches ?cfg \<le> 4294967295"
      using cl(1) by (simp add: validateConfig_def config_of_def)
    from main[THEN conjunct2, THEN conjunct2, rule_format, OF v, of ?sched]
    obtain cst' where s: "seeded (main_index supabase_createClient ?w ?cfg ?sched) = Some cst'"
      "exit_code (main_index supabase_createClient ?w ?cfg ?sched) = Some 0 \<longleftrightarrow>
         phase cst' = Finished"
      by blast
    have st: "seedUsers_start ?cfg =
        Inr \<lparr>processedUsers = 0, errors = 0, calls = [], generated = [],
             phase = Running, currentBatch = 0, semaphore = [None, None], in_flight = []\<rparr>"
      by (simp add: seedUsers_start_def config_of_def numeral_2_eq_2)
    have "seeded (main_index supabase_createClient ?w ?cfg ?sched) =
        Some (run ?w ?cfg ?sched ?init)"
      using v unfolding main_index_def st by (simp add: Let_def)
    with s(1) have "cst' = run ?w ?cfg ?sched ?init" by simp
    with s(2) faulty_run_finishes[THEN conjunct1] show ?thesis by simp
  qed
  ultimately show ?thesis using g fin rej cl(2) c by blast
qed


section \<open>C6: the slot pool of the concurrent policy\<close>

lemma size_occupants: "size (\<Sum>slot\<leftarrow>sem. occupant slot) \<le> length sem"
  by (induction sem) (auto simp: occupant_def split: option.splits)

lemma occupants_none:
  "\<forall>slot \<in> set sem. slot = None \<Longrightarrow> (\<Sum>slot\<leftarrow>sem. occupant slot) = {#}"
  by (induction sem) (auto simp: occupant_def)

lemma sorted_batch_range: "sorted_wrt (<) (batch_range n)"
  by (simp add: batch_range_def sorted_wrt_map)

lemma in_flight_slots:
  assumes "inv w cfg st"
  shows "mset (in_flight st) = mset (map batch_of (List.map_filter (\<lambda>slot. slot) (semaphore st)))"
proof -
  have "(\<Sum>slot\<leftarrow>sem. occupant slot) = mset (map batch_of (List.map_filter (\<lambda>slot. slot) sem))" for sem
    by (induction sem) (auto simp: occupant_def List.map_filter_simps split: option.splits)
  with assms show ?thesis by (simp add: inv_def)
qed

text \<open>
  C6. In every state of a run of the concurrent policy, under every interleaving: the
  batches in flight are exactly those held in the slots of the fixed array of
  \<open>concurrentBatches\<close> slots, so at most \<open>concurrentBatches\<close> batches are in flight; the
  batches dispatched so far are \<open>0, 1, ..., currentBatch - 1\<close> in this order, which is
  increasing; and when the run is finished no batch is in flight, every slot is empty and
  all batches have been dispatched.
\<close>

theorem bounded_concurrency:
  assumes "reachable w cfg st"
  shows "int (length (in_flight st)) \<le> seeding_concurrentBatches cfg \<and>
         length (semaphore st) = nat (seeding_concurrentBatches cfg) \<and>
         mset (in_flight st) =
           mset (map batch_of (List.map_filter (\<lambda>slot. slot) (semaphore st))) \<and>
         map fst (calls st) = batch_range (currentBatch st) \<and>
         sorted_wrt (<) (map fst (calls st)) \<and>
         (phase st = Finished \<longrightarrow>
            in_flight st = [] \<and> (\<forall>slot \<in> set (semaphore st). slot = None) \<and>
            map fst (calls st) = final_range cfg)"
proof -
  have i: "inv w cfg st" by (rule reachable_inv[OF assms])
  have fl: "mset (in_flight st) = (\<Sum>slot\<leftarrow>semaphore st. occupant slot)"
    and len: "length (semaphore st) = nat (seeding_concurrentBatches cfg)"
    and calls: "calls st = map (\<lambda>q. (q, size_of cfg q)) (batch_range (currentBatch st))"
    using i by (simp_all add: inv_def)
  have "length (in_flight st) = size (mset (in_flight st))" by simp
  also have "\<dots> \<le> length (semaphore st)" unfolding fl by (rule size_occupants)
  finally have "length (in_flight st) \<le> nat (seeding_concurrentBatches cfg)"
    using len by simp
  moreover have "0 \<le> seeding_concurrentBatches cfg"
    using assms by (auto simp: reachable_def seedUsers_start_def Let_def split: if_splits)
  ultimately have bound: "int (length (in_flight st)) \<le> seeding_concurrentBatches cfg"
    by linarith
  have order: "map fst (calls st) = batch_range (currentBatch st)"
    by (simp add: calls map_fst_calls)
  have fin: "in_flight st = [] \<and> (\<forall>slot \<in> set (semaphore st). slot = None) \<and>
             map fst (calls st) = final_range cfg" if f: "phase st = Finished"
  proof -
    have none: "\<forall>slot \<in> set (semaphore st). slot = None" using i f by (simp add: inv_def)
    from occupants_none[OF none] fl have "in_flight st = []" by simp
    with none AuthUserSeeder_final[OF assms f] show ?thesis by (simp add: map_fst_calls)
  qed
  from bound len in_flight_slots[OF i] order fin sorted_batch_range[of "currentBatch st"]
  show ?thesis by simp
qed

text \<open>
  An instance of C6: with two slots, three passes of the main loop dispatch the batches 0
  and 1 and then wait; the run has a finished state, with nothing in flight.
\<close>

theorem bounded_concurrency_witness:
  "reachable quiet_world (config_of ''u'' ''k'' 10 3 2)
     (run quiet_world (config_of ''u'' ''k'' 10 3 2) [MainLoop, MainLoop, MainLoop]
        (projr (seedUsers_start (config_of ''u'' ''k'' 10 3 2)))) \<and>
   in_flight (run quiet_world (config_of ''u'' ''k'' 10 3 2) [MainLoop, MainLoop, MainLoop]
        (projr (seedUsers_start (config_of ''u'' ''k'' 10 3 2)))) = [0, 1] \<and>
   int (length (in_flight (run quiet_world (config_of ''u'' ''k'' 10 3 2)
        [MainLoop, MainLoop, MainLoop]
        (projr (seedUsers_start (config_of ''u'' ''k'' 10 3 2)))))) \<le>
     seeding_concurrentBatches (config_of ''u'' ''k'' 10 3 2) \<and>
   map fst (calls (run quiet_world (config_of ''u'' ''k'' 10 3 2) [MainLoop, MainLoop, MainLoop]
        (projr (seedUsers_start (config_of ''u'' ''k'' 10 3 2))))) = [0, 1] \<and>
   (\<exists>st. reachable quiet_world (config_of ''u'' ''k'' 10 3 2) st \<and> phase st = Finished \<and>
      in_flight st = [] \<and> map fst (calls st) = [0, 1, 2, 3])"
proof -
  let ?cfg = "config_of ''u'' ''k'' 10 3 2"
  let ?st = "run quiet_world ?cfg [MainLoop, MainLoop, MainLoop] (projr (seedUsers_start ?cfg))"
  have start: "seedUsers_start ?cfg = Inr (projr (seedUsers_start ?cfg))"
    by (simp add: seedUsers_start_def config_of_def)
  then have r: "reachable quiet_world ?cfg ?st" unfolding reachable_def by blast
  have fl: "in_flight ?st = [0, 1]"
    by (simp add: seedUsers_start_def config_of_def quiet_world_def run_def main_loop_def
        Math_ceil_div_eq availableSlots_def dispatch_def processBatch_start_def generate_def
        currentBatchSize_def Let_def numeral_2_eq_2)
  have cb: "batch_range (currentBatch ?st) = [0, 1]"
    by (simp add: seedUsers_start_def config_of_def quiet_world_def run_def main_loop_def
        Math_ceil_div_eq availableSlots_def dispatch_def processBatch_start_def generate_def
        currentBatchSize_def Let_def numeral_2_eq_2 batch_range_def upt_rec)
  have range: "final_range ?cfg = [0, 1, 2, 3]"
    by (simp add: final_range_div config_of_def batch_range_def upt_rec)
  obtain fin where fin: "reachable quiet_world ?cfg fin" "phase fin = Finished"
    using run_can_finish[of ?cfg quiet_world] batches_finite[of ?cfg]
    by (auto simp: config_of_def)
  from bounded_concurrency[OF fin(1)] fin(2) range
  have "in_flight fin = [] \<and> map fst (calls fin) = [0, 1, 2, 3]" by metis
  with fin have "\<exists>st. reachable quiet_world ?cfg st \<and> phase st = Finished \<and>
      in_flight st = [] \<and> map fst (calls st) = [0, 1, 2, 3]" by (intro exI[of _ fin]) simp
  moreover have "int (length (in_flight ?st)) \<le> seeding_concurrentBatches ?cfg"
    and "map fst (calls ?st) = batch_range (currentBatch ?st)"
    using bounded_concurrency[OF r] by blast+
  ultimately show ?thesis using r fl cb by simp
qed


section \<open>C3: retries of the conservative policy\<close>







section \<open>C4: the emails of the generated records\<close>

lemma example_email:
  "email (make_user 1730000000000 (\<lambda>i. 0) (\<lambda>i. 0) ''example.com'' ''password123'' 0) =
   ''john.smith.1730000000000-0@example.com''"
  by (simp add: make_user_def firstNames_def lastNames_def toLowerCase_def lower_char_def
      uniqueId_def toString_nat_small toString_nat_large digit_char_def char_of_eq_iff)

text \<open>
  An email of the generator determines the timestamp and the index it was built from,
  whatever the names and the domain are: the digits before the \<open>@\<close> of the domain are
  the index, and the digits before the last \<open>-\<close> are the timestamp. Hence the emails of
  one batch are pairwise different, as are those of two batches generated in different
  milliseconds; and every record has \<open>email_verified\<close> set.
\<close>

lemma email_determines_id:
  assumes "email (make_user t1 pf1 pl1 domain pw1 i) = email (make_user t2 pf2 pl2 domain pw2 j)"
  shows "t1 = t2 \<and> i = j"
proof -
  let ?n1 = "toLowerCase (firstNames ! (pf1 i mod length firstNames)) @ ''.'' @
             toLowerCase (lastNames ! (pl1 i mod length lastNames))"
  let ?n2 = "toLowerCase (firstNames ! (pf2 j mod length firstNames)) @ ''.'' @
             toLowerCase (lastNames ! (pl2 j mod length lastNames))"
  have "(?n1 @ ''.'' @ toString_nat t1 @ ''-'' @ toString_nat i) @ (''@'' @ domain) =
        (?n2 @ ''.'' @ toString_nat t2 @ ''-'' @ toString_nat j) @ (''@'' @ domain)"
    using assms by (simp add: make_user_def uniqueId_def Let_def)
  then have "(?n1 @ ''.'' @ toString_nat t1) @ [CHR ''-''] @ toString_nat i =
             (?n2 @ ''.'' @ toString_nat t2) @ [CHR ''-''] @ toString_nat j"
    by (simp only: append_same_eq) simp
  from split_last_sep[OF this toString_nat_digits toString_nat_digits not_digit_minus not_digit_minus]
  have p: "?n1 @ ''.'' @ toString_nat t1 = ?n2 @ ''.'' @ toString_nat t2"
    and i: "toString_nat i = toString_nat j" by simp_all
  from p have "?n1 @ [CHR ''.''] @ toString_nat t1 = ?n2 @ [CHR ''.''] @ toString_nat t2"
    by simp
  from split_last_sep[OF this toString_nat_digits toString_nat_digits not_digit_dot not_digit_dot]
  have "toString_nat t1 = toString_nat t2" by simp
  with i show ?thesis by (simp add: toString_nat_inj)
qed

lemma generateUserBatch_emails_distinct:
  "distinct (map email (generateUserBatch t pf pl n domain pw))"
proof -
  have "inj_on (\<lambda>i. email (make_user t pf pl domain pw i)) (set [0 ..< nat n])"
    by (rule inj_onI) (auto dest: email_determines_id)
  then show ?thesis
    by (simp add: generateUserBatch_def distinct_map comp_def)
qed

lemma generateUserBatch_verified:
  "u \<in> set (generateUserBatch t pf pl n domain pw) \<Longrightarrow> email_verified (metadata u)"
  by (auto simp: generateUserBatch_def make_user_def Let_def)

lemma generateUserBatch_other_millisecond:
  assumes "t1 \<noteq> t2"
  shows "set (map email (generateUserBatch t1 pf1 pl1 n1 domain pw1)) \<inter>
         set (map email (generateUserBatch t2 pf2 pl2 n2 domain pw2)) = {}"
  using assms by (auto simp: generateUserBatch_def dest: email_determines_id)

text \<open>
  C4. The emails of a run are not unique across batches: the index starts at 0 in each
  batch and the timestamp is read once per batch, so two batches generated within the same
  millisecond whose name draws coincide produce the same email. The concurrent policy
  dispatches batches back to back, without a pause: with 2 records in batches of 1 and 2
  slots, two passes of the main loop generate both batches, and with the same clock
  reading and the same draws the two records share their email.
\<close>

theorem same_millisecond_collision:
  "calls (run same_millisecond_world (config_of ''u'' ''k'' 2 1 2) [MainLoop, MainLoop]
      (projr (seedUsers_start (config_of ''u'' ''k'' 2 1 2)))) = [(0, 1), (1, 1)] \<and>
   map email (generated (run same_millisecond_world (config_of ''u'' ''k'' 2 1 2)
      [MainLoop, MainLoop] (projr (seedUsers_start (config_of ''u'' ''k'' 2 1 2))))) =
     [''john.smith.1730000000000-0@example.com'', ''john.smith.1730000000000-0@example.com'']"
  by (simp add: seedUsers_start_def config_of_def quiet_world_def same_millisecond_world_def
      run_def main_loop_def Math_ceil_div_eq availableSlots_def dispatch_def
      processBatch_start_def generate_def currentBatchSize_def Let_def numeral_2_eq_2
      generateUserBatch_def example_email)


section \<open>C7: a missing credential\<close>

text \<open>
  C7. Under each of the three policies a missing credential ends the program with status
  1 before \<^verbatim>\<open>seedUsers\<close> is entered, and the message written names the missing setting.
  \<^verbatim>\<open>main\<close> of index.ts calls \<^verbatim>\<open>validateConfig\<close> first, whatever the client constructor
  does; \<^verbatim>\<open>main\<close> of batch-seeder.ts and of conservative-seeder.ts construct the seeder
  inside their \<^verbatim>\<open>try\<close> block, where the constructor of the client throws on the empty
  argument. (Whatever error the constructor throws, these two end with status 1 and that
  error's message.)
\<close>

theorem missing_credential_fails_fast:
  assumes "supabase_url cfg = [] \<or> supabase_serviceRoleKey cfg = []"
  shows
    "main_index createClient w cfg schedule =
       \<lparr>exit_code = Some 1,
        console_error =
          [''Seeding failed:'',
           if supabase_url cfg = [] then ''SUPABASE_URL is required''
           else ''SUPABASE_SERVICE_ROLE_KEY is required''],
        seeded = None\<rparr> \<and>
     main_batch supabase_createClient w cfg =
       \<lparr>exit_code = Some 1,
        console_error =
          [''Seeding failed:'',
           if supabase_url cfg = [] then ''supabaseUrl is required.''
           else ''supabaseKey is required.''],
        seeded = None\<rparr> \<and>
     main_conservative supabase_createClient w cfg =
       \<lparr>exit_code = Some 1,
        console_error =
          [''Seeding failed:'',
           if supabase_url cfg = [] then ''supabaseUrl is required.''
           else ''supabaseKey is required.''],
        seeded = None\<rparr> \<and>
     (\<forall>e. createClient (supabase_url cfg) (supabase_serviceRoleKey cfg) = Some e \<longrightarrow>
        main_batch createClient w cfg =
          \<lparr>exit_code = Some 1, console_error = [''Seeding failed:'', error_text e],
           seeded = None\<rparr> \<and>
        main_conservative createClient w cfg =
          \<lparr>exit_code = Some 1, console_error = [''Seeding failed:'', error_text e],
           seeded = None\<rparr>)"
proof -
  have index: "main_index createClient w cfg schedule =
       \<lparr>exit_code = Some 1,
        console_error =
          [''Seeding failed:'',
           if supabase_url cfg = [] then ''SUPABASE_URL is required''
           else ''SUPABASE_SERVICE_ROLE_KEY is required''],
        seeded = None\<rparr>"
    using assms by (auto simp: main_index_def validateConfig_def seeding_failed_def)
  have thrown: "main_batch c w cfg =
          \<lparr>exit_code = Some 1, console_error = [''Seeding failed:'', error_text e],
           seeded = None\<rparr> \<and>
        main_conservative c w cfg =
          \<lparr>exit_code = Some 1, console_error = [''Seeding failed:'', error_text e],
           seeded = None\<rparr>"
    if "c (supabase_url cfg) (supabase_serviceRoleKey cfg) = Some e" for c e
    using that
    by (simp add: main_batch_def main_conservative_def main_sequential_def seeding_failed_def)
  have lib: "supabase_createClient (supabase_url cfg) (supabase_serviceRoleKey cfg) =
      Some (JsError (if supabase_url cfg = [] then ''supabaseUrl is required.''
                     else ''supabaseKey is required.''))"
    using assms by (auto simp: supabase_createClient_def)
  have sequential: "main_batch supabase_createClient w cfg =
       \<lparr>exit_code = Some 1,
        console_error =
          [''Seeding failed:'',
           if supabase_url cfg = [] then ''supabaseUrl is required.''
           else ''supabaseKey is required.''],
        seeded = None\<rparr> \<and>
     main_conservative supabase_createClient w cfg =
       \<lparr>exit_code = Some 1,
        console_error =
          [''Seeding failed:'',
           if supabase_url cfg = [] then ''supabaseUrl is required.''
           else ''supabaseKey is required.''],
        seeded = None\<rparr>"
    using thrown[of supabase_createClient, OF lib] by (simp only: error_text.simps)
  from index sequential thrown show ?thesis by blast
qed

text \<open>
  Two instances: the service URL is missing, and the service role key is missing.
\<close>

theorem missing_credential_fails_fast_witness:
  "(supabase_url (config_of [] ''service-role-key'' 10 3 2) = [] \<or>
    supabase_serviceRoleKey (config_of [] ''service-role-key'' 10 3 2) = []) \<and>
   main_index supabase_createClient quiet_world (config_of [] ''service-role-key'' 10 3 2)
       [MainLoop] =
     \<lparr>exit_code = Some 1, console_error = [''Seeding failed:'', ''SUPABASE_URL is required''],
      seeded = None\<rparr> \<and>
   main_batch supabase_createClient quiet_world (config_of [] ''service-role-key'' 10 3 2) =
     \<lparr>exit_code = Some 1, console_error = [''Seeding failed:'', ''supabaseUrl is required.''],
      seeded = None\<rparr> \<and>
   main_conservative supabase_createClient quiet_world
       (config_of [] ''service-role-key'' 10 3 2) =
     \<lparr>exit_code = Some 1, console_error = [''Seeding failed:'', ''supabaseUrl is required.''],
      seeded = None\<rparr> \<and>
   (supabase_url (config_of ''https://project.supabase.co'' [] 10 3 2) = [] \<or>
    supabase_serviceRoleKey (config_of ''https://project.supabase.co'' [] 10 3 2) = []) \<and>
   main_index supabase_createClient quiet_world
       (config_of ''https://project.supabase.co'' [] 10 3 2) [MainLoop] =
     \<lparr>exit_code = Some 1,
      console_error = [''Seeding failed:'', ''SUPABASE_SERVICE_ROLE_KEY is required''],
      seeded = None\<rparr> \<and>
   main_batch supabase_createClient quiet_world
       (config_of ''https://project.supabase.co'' [] 10 3 2) =
     \<lparr>exit_code = Some 1, console_error = [''Seeding failed:'', ''supabaseKey is required.''],
      seeded = None\<rparr>"
proof -
  let ?a = "config_of [] ''service-role-key'' 10 3 2"
  let ?b = "config_of ''https://project.supabase.co'' [] 10 3 2"
  have ha: "supabase_url ?a = [] \<or> supabase_serviceRoleKey ?a = []"
    and ua: "supabase_url ?a = []"
    by (simp_all add: config_of_def)
  have hb: "supabase_url ?b = [] \<or> supabase_serviceRoleKey ?b = []"
    and ub: "supabase_url ?b \<noteq> []"
    by (simp_all add: config_of_def)
  note a = missing_credential_fails_fast[OF ha, of supabase_createClient quiet_world "[MainLoop]"]
  note b = missing_credential_fails_fast[OF hb, of supabase_createClient quiet_world "[MainLoop]"]
  have a1: "main_index supabase_createClient quiet_world ?a [MainLoop] =
     \<lparr>exit_code = Some 1, console_error = [''Seeding failed:'', ''SUPABASE_URL is required''],
      seeded = None\<rparr>"
    using a[THEN conjunct1] ua by simp
  have a2: "main_batch supabase_createClient quiet_world ?a =
     \<lparr>exit_code = Some 1, console_error = [''Seeding failed:'', ''supabaseUrl is required.''],
      seeded = None\<rparr>"
    using a[THEN conjunct2, THEN conjunct1] ua by simp
  have a3: "main_conservative supabase_createClient quiet_world ?a =
     \<lparr>exit_code = Some 1, console_error = [''Seeding failed:'', ''supabaseUrl is required.''],
      seeded = None\<rparr>"
    using a[THEN conjunct2, THEN conjunct2, THEN conjunct1] ua by simp
  have b1: "main_index supabase_createClient quiet_world ?b [MainLoop] =
     \<lparr>exit_code = Some 1,
      console_error = [''Seeding failed:'', ''SUPABASE_SERVICE_ROLE_KEY is required''],
      seeded = None\<rparr>"
    using b[THEN conjunct1] ub by simp
  have b2: "main_batch supabase_createClient quiet_world ?b =
     \<lparr>exit_code = Some 1, console_error = [''Seeding failed:'', ''supabaseKey is required.''],
      seeded = None\<rparr>"
    using b[THEN conjunct2, THEN conjunct1] ub by simp
  from ha a1 a2 a3 hb b1 b2 show ?thesis by blast
qed


section \<open>C8: the estimated time remaining\<close>

lemma js_rem_nonneg:
  assumes "0 \<le> x" "0 < m"
  shows "js_rem x m = x - m * of_int \<lfloor>x / m\<rfloor>"
  using assms by (simp add: js_rem_def)

lemma eta_fields:
  fixes x :: rat
  assumes "0 \<le> x"
  defines "X \<equiv> \<lfloor>x / 1000\<rfloor>"
  shows "\<lfloor>x / 3600000\<rfloor> = X div 3600"
    and "\<lfloor>js_rem x 3600000 / 60000\<rfloor> = (X div 60) mod 60"
    and "\<lfloor>js_rem x 60000 / 1000\<rfloor> = X mod 60"
proof -
  have m: "\<lfloor>x / 60000\<rfloor> = X div 60"
    using floor_divide_rat[of 60 "x / 1000"] by (simp add: X_def)
  have h: "\<lfloor>x / 3600000\<rfloor> = (X div 60) div 60"
    using floor_divide_rat[of 60 "x / 60000"] m by simp
  show "\<lfloor>x / 3600000\<rfloor> = X div 3600"
    using h by (simp add: zdiv_zmult2_eq)
  have "js_rem x 3600000 / 60000 = x / 60000 - of_int (60 * \<lfloor>x / 3600000\<rfloor>)"
    using assms(1) by (simp add: js_rem_nonneg field_simps)
  then have "\<lfloor>js_rem x 3600000 / 60000\<rfloor> = \<lfloor>x / 60000\<rfloor> - 60 * \<lfloor>x / 3600000\<rfloor>"
    by (simp only: floor_diff_of_int)
  then show "\<lfloor>js_rem x 3600000 / 60000\<rfloor> = (X div 60) mod 60"
    unfolding m h by (simp add: minus_mult_div_eq_mod)
  have "js_rem x 60000 / 1000 = x / 1000 - of_int (60 * \<lfloor>x / 60000\<rfloor>)"
    using assms(1) by (simp add: js_rem_nonneg field_simps)
  then have "\<lfloor>js_rem x 60000 / 1000\<rfloor> = \<lfloor>x / 1000\<rfloor> - 60 * \<lfloor>x / 60000\<rfloor>"
    by (simp only: floor_diff_of_int)
  then show "\<lfloor>js_rem x 60000 / 1000\<rfloor> = X mod 60"
    unfolding m X_def[symmetric] by (simp add: minus_mult_div_eq_mod)
qed

lemma js_rem_bounds:
  assumes "0 \<le> x" and "0 < c"
  shows "0 \<le> js_rem x (of_int c)" and "js_rem x (of_int c) < of_int c"
proof -
  have cq: "0 < (of_int c :: rat)" using assms(2) by simp
  have r: "js_rem x (of_int c) = x - of_int c * of_int \<lfloor>x / of_int c\<rfloor>"
    using assms cq by (simp add: js_rem_def)
  from of_int_floor_le[of "x / of_int c"] have "of_int \<lfloor>x / of_int c\<rfloor> * of_int c \<le> x"
    by (simp only: pos_le_divide_eq[OF cq])
  then show "0 \<le> js_rem x (of_int c)" unfolding r by (simp add: algebra_simps)
  have "x / of_int c < of_int \<lfloor>x / of_int c\<rfloor> + 1" using floor_correct[of "x / of_int c"] by simp
  then have "x < (of_int \<lfloor>x / of_int c\<rfloor> + 1) * of_int c" by (simp only: pos_divide_less_eq[OF cq])
  then show "js_rem x (of_int c) < of_int c" unfolding r by (simp add: algebra_simps)
qed

text \<open>
  For a non-negative double below \<open>2^53 - 3600000\<close> the rounding of the three quotients
  does not change their integer parts: the fields are those of exact arithmetic.
\<close>

lemma fields_of_double:
  assumes d: "is_double x" and x0: "0 \<le> x" and small: "x \<le> 2 ^ 52 + 2"
  shows "\<lfloor>round_double (x / 3600000)\<rfloor> = \<lfloor>x / 1000\<rfloor> div 3600"
    and "\<lfloor>round_double (js_rem x 3600000 / 60000)\<rfloor> = (\<lfloor>x / 1000\<rfloor> div 60) mod 60"
    and "\<lfloor>round_double (js_rem x 60000 / 1000)\<rfloor> = \<lfloor>x / 1000\<rfloor> mod 60"
proof -
  note f = eta_fields[OF x0]
  have bound: "(\<lfloor>y / of_int c\<rfloor> + 1) * c < 2 ^ 53"
    if "0 \<le> y" "y \<le> 2 ^ 52 + 2" "0 < c" "c \<le> 3600000" for y :: rat and c :: int
  proof -
    have cq: "0 < (of_int c :: rat)" using that by simp
    from of_int_floor_le[of "y / of_int c"] have "of_int \<lfloor>y / of_int c\<rfloor> * of_int c \<le> y"
      by (simp only: pos_le_divide_eq[OF cq])
    then have "(of_int (\<lfloor>y / of_int c\<rfloor> * c) :: rat) \<le> 2 ^ 52 + 2" using that(2) by simp
    then have "(of_int (\<lfloor>y / of_int c\<rfloor> * c) :: rat) \<le> of_int (2 ^ 52 + 2)" by simp
    then have "\<lfloor>y / of_int c\<rfloor> * c \<le> 2 ^ 52 + 2" by (simp only: of_int_le_iff)
    moreover have "(\<lfloor>y / of_int c\<rfloor> + 1) * c = \<lfloor>y / of_int c\<rfloor> * c + c" by (simp add: algebra_simps)
    ultimately show ?thesis using that(4) by simp
  qed
  have "\<lfloor>round_double (x / of_int 3600000)\<rfloor> = \<lfloor>x / of_int 3600000\<rfloor>"
    by (rule floor_round_double_divide[OF d x0]) (use bound[OF x0 small, of 3600000] in simp_all)
  then show "\<lfloor>round_double (x / 3600000)\<rfloor> = \<lfloor>x / 1000\<rfloor> div 3600"
    using f(1) by simp
  have r1: "js_rem x 3600000 = x - of_int 3600000 * of_int \<lfloor>x / of_int 3600000\<rfloor>"
    using x0 by (simp add: js_rem_nonneg)
  have d1: "is_double (js_rem x 3600000)"
    unfolding r1 by (rule is_double_remainder[OF d x0]) simp_all
  have b1: "0 \<le> js_rem x 3600000" "js_rem x 3600000 < 3600000"
    using js_rem_bounds[OF x0, of 3600000] by simp_all
  have "\<lfloor>round_double (js_rem x 3600000 / of_int 60000)\<rfloor> = \<lfloor>js_rem x 3600000 / of_int 60000\<rfloor>"
    by (rule floor_round_double_divide[OF d1 b1(1)])
      (use bound[OF b1(1), of 60000] b1(2) in simp_all)
  then show "\<lfloor>round_double (js_rem x 3600000 / 60000)\<rfloor> = (\<lfloor>x / 1000\<rfloor> div 60) mod 60"
    using f(2) by simp
  have r2: "js_rem x 60000 = x - of_int 60000 * of_int \<lfloor>x / of_int 60000\<rfloor>"
    using x0 by (simp add: js_rem_nonneg)
  have d2: "is_double (js_rem x 60000)"
    unfolding r2 by (rule is_double_remainder[OF d x0]) simp_all
  have b2: "0 \<le> js_rem x 60000" "js_rem x 60000 < 60000"
    using js_rem_bounds[OF x0, of 60000] by simp_all
  have "\<lfloor>round_double (js_rem x 60000 / of_int 1000)\<rfloor> = \<lfloor>js_rem x 60000 / of_int 1000\<rfloor>"
    by (rule floor_round_double_divide[OF d2 b2(1)])
      (use bound[OF b2(1), of 1000] b2(2) in simp_all)
  then show "\<lfloor>round_double (js_rem x 60000 / 1000)\<rfloor> = \<lfloor>x / 1000\<rfloor> mod 60"
    using f(3) by simp
qed

lemma parts_of_double:
  assumes "processed \<noteq> 0" and "etaMs processed t s now = x"
    and "is_double x" and "0 \<le> x" and "x \<le> 2 ^ 52 + 2"
  shows "calculateETA_parts processed t s now = eta_of_seconds \<lfloor>x / 1000\<rfloor>"
proof -
  note f = fields_of_double[OF assms(3,4,5)]
  have c: "(1000 * 60 :: rat) = 60000" "(60000 * 60 :: rat) = 3600000" by simp_all
  show ?thesis
    unfolding calculateETA_parts_def Let_def assms(2) c f eta_of_seconds_def
    by (simp only: assms(1) if_False)
qed

lemma displayed_seconds_eta_of_seconds:
  assumes "0 \<le> X"
  shows "displayed_seconds (eta_of_seconds X) = X"
proof -
  have split: "X = (X div 3600) * 3600 + ((X div 60) mod 60) * 60 + X mod 60"
  proof -
    have "X div 3600 = (X div 60) div 60" by (simp add: zdiv_zmult2_eq)
    then have "(X div 3600) * 60 + (X div 60) mod 60 = X div 60" by simp
    then have "(X div 3600) * 3600 + ((X div 60) mod 60) * 60 = (X div 60) * 60"
      by (simp add: algebra_simps)
    then show ?thesis by simp
  qed
  have h0: "0 \<le> X div 3600" and m0: "0 \<le> (X div 60) mod 60"
    using assms by (simp_all add: pos_imp_zdiv_nonneg_iff)
  show ?thesis
  proof (cases "X div 3600 > 0")
    case True
    then show ?thesis unfolding eta_of_seconds_def using split by simp
  next
    case False
    with h0 have h: "X div 3600 = 0" by simp
    show ?thesis
    proof (cases "(X div 60) mod 60 > 0")
      case True
      then show ?thesis unfolding eta_of_seconds_def using split h by simp
    next
      case False
      with m0 have "(X div 60) mod 60 = 0" by simp
      then show ?thesis unfolding eta_of_seconds_def using split h by simp
    qed
  qed
qed


lemma etaMs_elapsed:
  assumes "0 < e" and "e < 2 ^ 53" and "\<bar>t - p\<bar> < 2 ^ 53"
  shows "etaMs p t s (s + e) =
         round_double (of_int (t - p) / round_double (of_int p / of_int e))"
proof -
  have 1: "round_double (of_int (s + e) - of_int s) = of_int e"
    using round_double_of_int[of e] assms by simp
  have 2: "round_double (of_int t - of_int p) = of_int (t - p)"
    using round_double_of_int[OF assms(3)] by simp
  have 3: "(of_int e :: rat) \<noteq> 0" using assms(1) by simp
  show ?thesis unfolding etaMs_def Let_def 1 2 using 3 by simp
qed

lemma eta_monotone:
  assumes p: "0 < p1" "p1 \<le> p2" "p2 \<le> t" and t: "t \<le> 2 ^ 52"
    and e: "0 < e1" "e1 < 2 ^ 53" "0 < e2" "e2 < 2 ^ 53"
    and rate: "p1 * e2 = p2 * e1"
    and est: "(t - p1) * e1 \<le> 2 ^ 52 * p1"
  shows "etaMs p2 t s (s + e2) \<le> etaMs p1 t s (s + e1)"
    and "p1 < p2 \<Longrightarrow> etaMs p2 t s (s + e2) < etaMs p1 t s (s + e1)"
    and "0 \<le> etaMs p2 t s (s + e2)"
    and "etaMs p1 t s (s + e1) \<le> 2 ^ 52 + 2"
    and "is_double (etaMs p1 t s (s + e1))" and "is_double (etaMs p2 t s (s + e2))"
proof -
  have p2: "0 < p2" using p by simp
  define q :: rat where "q = of_int p1 / of_int e1"
  have q0: "0 < q" unfolding q_def using p e by simp
  have "(of_int p1 :: rat) * of_int e2 = of_int p2 * of_int e1"
    using rate by (metis of_int_mult)
  then have q2: "of_int p2 / of_int e2 = q" unfolding q_def using e by (simp add: field_simps)
  define r where "r = round_double q"
  have r0: "0 < r" unfolding r_def using q0 by (rule round_double_pos)
  define w where "w = 1 / r"
  have w0: "0 < w" unfolding w_def using r0 by simp
  define y1 :: rat where "y1 = of_int (t - p1) * w"
  define y2 :: rat where "y2 = of_int (t - p2) * w"
  have b1: "\<bar>t - p1\<bar> < 2 ^ 53" and b2: "\<bar>t - p2\<bar> < 2 ^ 53" using p t p2 by simp_all
  have x1: "etaMs p1 t s (s + e1) = round_double y1"
    using etaMs_elapsed[OF e(1,2) b1, of s] by (simp add: q_def r_def w_def y1_def)
  have x2: "etaMs p2 t s (s + e2) = round_double y2"
    using etaMs_elapsed[OF e(3,4) b2, of s] by (simp add: q2 r_def w_def y2_def)
  have y20: "0 \<le> y2" unfolding y2_def using p w0 by simp
  have "(of_int (t - p2) :: rat) \<le> of_int (t - p1)" using p by simp
  then have y21: "y2 \<le> y1" unfolding y1_def y2_def using w0 by (intro mult_right_mono) simp_all
  have y10: "0 \<le> y1" using y20 y21 by simp
  show le: "etaMs p2 t s (s + e2) \<le> etaMs p1 t s (s + e1)"
    unfolding x1 x2 by (rule round_double_mono[OF y20 y21])
  show "0 \<le> etaMs p2 t s (s + e2)" unfolding x2 by (rule round_double_nonneg[OF y20])
  show "is_double (etaMs p1 t s (s + e1))" unfolding x1 by (rule is_double_round_double[OF y10])
  show "is_double (etaMs p2 t s (s + e2))" unfolding x2 by (rule is_double_round_double[OF y20])
  have lo1: "y1 - y1 / 2 ^ 53 \<le> round_double y1"
    using round_double_error[OF y10] by linarith
  have hi1: "round_double y1 \<le> y1 + y1 / 2 ^ 53"
    using round_double_error[OF y10] by linarith
  have hi2: "round_double y2 \<le> y2 + y2 / 2 ^ 53"
    using round_double_error[OF y20] by linarith
  show "etaMs p2 t s (s + e2) < etaMs p1 t s (s + e1)" if "p1 < p2"
  proof -
    have "(1::rat) \<le> of_int (p2 - p1)" using that by simp
    then have "1 * w \<le> of_int (p2 - p1) * w" using w0 by (intro mult_right_mono) simp_all
    moreover have "y1 - y2 = of_int (p2 - p1) * w" unfolding y1_def y2_def by (simp add: algebra_simps)
    ultimately have d: "w \<le> y1 - y2" by simp
    have "t - p1 < 2 ^ 52" using p t by simp
    then have "(of_int (t - p1) :: rat) < of_int (2 ^ 52)" by (simp only: of_int_less_iff)
    then have "of_int (t - p1) * w < of_int (2 ^ 52) * w" using w0 by (intro mult_strict_right_mono)
    then have "y1 < 2 ^ 52 * w" unfolding y1_def by simp
    then have s1: "y1 / 2 ^ 53 < w / 2" by simp
    have s2: "y2 / 2 ^ 53 \<le> y1 / 2 ^ 53" using y21 by (simp add: divide_right_mono)
    from d s1 s2 lo1 hi2 show ?thesis unfolding x1 x2 by linarith
  qed
  show "etaMs p1 t s (s + e1) \<le> 2 ^ 52 + 2"
  proof -
    define L :: rat where "L = 1 - 1 / 2 ^ 53"
    have L0: "0 < L" by (simp add: L_def)
    have rl: "q * L \<le> r" unfolding r_def L_def using q0 by (intro round_double_lower) simp
    have ql: "0 < q * L" using q0 L0 by (rule mult_pos_pos)
    have "0 < r * (q * L)" using r0 ql by (rule mult_pos_pos)
    then have "1 / r \<le> 1 / (q * L)" by (intro divide_left_mono[OF rl]) simp_all
    moreover have "1 / (q * L) = (1 / q) * (1 / L)" by simp
    ultimately have wq: "w \<le> (1 / q) * (1 / L)" unfolding w_def by (simp only:)
    have rem0: "(0::rat) \<le> of_int (t - p1)" using p by simp
    have "(of_int ((t - p1) * e1) :: rat) \<le> of_int (2 ^ 52 * p1)" using est by (simp only: of_int_le_iff)
    then have "(of_int (t - p1) :: rat) * of_int e1 \<le> 2 ^ 52 * of_int p1" by simp
    then have "(of_int (t - p1) :: rat) * of_int e1 / of_int p1 \<le> 2 ^ 52"
      using p(1) by (simp add: field_simps)
    then have est': "of_int (t - p1) * (1 / q) \<le> 2 ^ 52" unfolding q_def by simp
    have "y1 \<le> of_int (t - p1) * ((1 / q) * (1 / L))"
      unfolding y1_def using wq rem0 by (rule mult_left_mono)
    also have "\<dots> = (of_int (t - p1) * (1 / q)) * (1 / L)" by simp
    also have "\<dots> \<le> 2 ^ 52 * (1 / L)"
      using est' L0 by (intro mult_right_mono) simp_all
    finally have y1b: "y1 \<le> 2 ^ 52 * (1 / L)" .
    have "round_double y1 \<le> y1 * (1 + 1 / 2 ^ 53)" by (rule round_double_upper[OF y10])
    also have "\<dots> \<le> (2 ^ 52 * (1 / L)) * (1 + 1 / 2 ^ 53)"
      using y1b by (intro mult_right_mono) simp_all
    also have "\<dots> \<le> 2 ^ 52 + 2" unfolding L_def by simp
    finally show ?thesis unfolding x1 .
  qed
qed

lemma render_eta_last: "e \<noteq> Calculating \<Longrightarrow> last (render_eta e) = CHR ''s''"
  by (cases e) simp_all

lemma calculateETA_parts_Calculating:
  "calculateETA_parts processed t s now = Calculating \<longleftrightarrow> processed = 0"
  by (simp add: calculateETA_parts_def Let_def)

lemma etaMs_eval:
  assumes "round_double (of_int now - of_int startTime) = elapsed" and "elapsed \<noteq> 0"
    and "round_double (of_int processed / elapsed) = rate"
    and "round_double (of_int total' - of_int processed) = remaining"
    and "round_double (remaining / rate) = ms"
  shows "etaMs processed total' startTime now = ms"
  unfolding etaMs_def Let_def assms(1) assms(3) assms(4) assms(5) using assms(2) by simp

lemma js_rem_nonpos:
  assumes "x \<le> 0" and "0 < m"
  shows "js_rem x m \<le> 0"
proof (cases "x = 0")
  case True
  then show ?thesis by (simp add: js_rem_def)
next
  case False
  with assms have "x / m < 0" by (simp add: divide_neg_pos)
  then have r: "js_rem x m = x - m * of_int \<lceil>x / m\<rceil>" by (simp add: js_rem_def)
  have "x / m \<le> of_int \<lceil>x / m\<rceil>" by (rule le_of_int_ceiling)
  then have "x \<le> of_int \<lceil>x / m\<rceil> * m" by (simp only: pos_divide_le_eq[OF assms(2)])
  then show ?thesis unfolding r by (simp add: algebra_simps)
qed

text \<open>A negative estimate displays its seconds field only.\<close>

lemma parts_nonpos:
  assumes "processed \<noteq> 0" and "etaMs processed t s now = x" and "x \<le> 0"
  shows "calculateETA_parts processed t s now =
         Seconds \<lfloor>round_double (js_rem x 60000 / 1000)\<rfloor>"
proof -
  have "x / 3600000 \<le> 0" using assms(3) by simp
  then have "round_double (x / 3600000) \<le> 0" by (rule round_double_nonpos)
  then have h: "\<not> 0 < \<lfloor>round_double (x / 3600000)\<rfloor>" by (simp add: floor_less_iff)
  have "js_rem x 3600000 / 60000 \<le> 0" using js_rem_nonpos[OF assms(3), of 3600000] by simp
  then have "round_double (js_rem x 3600000 / 60000) \<le> 0" by (rule round_double_nonpos)
  then have m: "\<not> 0 < \<lfloor>round_double (js_rem x 3600000 / 60000)\<rfloor>" by (simp add: floor_less_iff)
  have c: "(1000 * 60 :: rat) = 60000" "(60000 * 60 :: rat) = 3600000" by simp_all
  show ?thesis
    unfolding calculateETA_parts_def Let_def assms(2) c
    by (simp only: assms(1) h m if_False)
qed

lemma round_double_milli: "round_double (1 / 1000) = 4611686018427388 * 2 powi (- 62)"
  using round_double_eqI[of 4611686018427388 "1 / 1000" "- 62"] by simp

lemma etaMs_69: "etaMs 69 10 0 69000 = - 59000"
proof (rule etaMs_eval)
  show "round_double (of_int 69000 - of_int 0) = 69000" using round_double_of_int[of 69000] by simp
  show "(69000 :: rat) \<noteq> 0" by simp
  show "round_double (of_int 69 / 69000) = 4611686018427388 * 2 powi (- 62)"
    using round_double_milli by simp
  show "round_double (of_int 10 - of_int 69) = - 59" using round_double_of_int[of "- 59"] by simp
  show "round_double (- 59 / (4611686018427388 * 2 powi (- 62))) = - 59000"
    using round_double_eqI[of "- 8108898254848000" "- 59 / (4611686018427388 * 2 powi (- 62))" "- 37"]
    by simp
qed

lemma etaMs_71: "etaMs 71 10 0 71000 = - 61000"
proof (rule etaMs_eval)
  show "round_double (of_int 71000 - of_int 0) = 71000" using round_double_of_int[of 71000] by simp
  show "(71000 :: rat) \<noteq> 0" by simp
  show "round_double (of_int 71 / 71000) = 4611686018427388 * 2 powi (- 62)"
    using round_double_milli by simp
  show "round_double (of_int 10 - of_int 71) = - 61" using round_double_of_int[of "- 61"] by simp
  show "round_double (- 61 / (4611686018427388 * 2 powi (- 62))) = - 61000"
    using round_double_eqI[of "- 8383776161792000" "- 61 / (4611686018427388 * 2 powi (- 62))" "- 37"]
    by simp
qed

lemma parts_69: "calculateETA_parts 69 10 0 69000 = Seconds (- 59)"
proof -
  have c: "\<lceil>- (59 / 60) :: rat\<rceil> = 0" by (rule ceiling_unique) simp_all
  have r: "js_rem (- 59000) 60000 / 1000 = of_int (- 59)" by (simp add: js_rem_def c)
  have "\<lfloor>round_double (js_rem (- 59000) 60000 / 1000)\<rfloor> = - 59"
    unfolding r using round_double_of_int[of "- 59"] by simp
  with parts_nonpos[OF _ etaMs_69] show ?thesis by simp
qed

lemma parts_71: "calculateETA_parts 71 10 0 71000 = Seconds (- 1)"
proof -
  have c: "\<lceil>- (61 / 60) :: rat\<rceil> = - 1" by (rule ceiling_unique) simp_all
  have r: "js_rem (- 61000) 60000 / 1000 = of_int (- 1)" by (simp add: js_rem_def c)
  have "\<lfloor>round_double (js_rem (- 61000) 60000 / 1000)\<rfloor> = - 1"
    unfolding r using round_double_of_int[of "- 1"] floor_of_int[of "- 1", where 'a = rat]
    by simp
  with parts_nonpos[OF _ etaMs_71] show ?thesis by simp
qed

lemma round_double_500th: "round_double (1 / 500) = 4611686018427388 * 2 powi (- 61)"
  using round_double_eqI[of 4611686018427388 "1 / 500" "- 61"] by simp

lemma etaMs_10: "etaMs 10 100 0 (0 + 5000) = 45000"
proof (rule etaMs_eval)
  show "round_double (of_int (0 + 5000) - of_int 0) = 5000" using round_double_of_int[of 5000] by simp
  show "(5000 :: rat) \<noteq> 0" by simp
  show "round_double (of_int 10 / 5000) = 4611686018427388 * 2 powi (- 61)"
    using round_double_500th by simp
  show "round_double (of_int 100 - of_int 10) = 90" using round_double_of_int[of 90] by simp
  show "round_double (90 / (4611686018427388 * 2 powi (- 61))) = 45000"
    using round_double_eqI[of 6184752906240000 "90 / (4611686018427388 * 2 powi (- 61))" "- 37"]
    by simp
qed

lemma etaMs_40: "etaMs 40 100 0 (0 + 20000) = 30000"
proof (rule etaMs_eval)
  show "round_double (of_int (0 + 20000) - of_int 0) = 20000"
    using round_double_of_int[of 20000] by simp
  show "(20000 :: rat) \<noteq> 0" by simp
  show "round_double (of_int 40 / 20000) = 4611686018427388 * 2 powi (- 61)"
    using round_double_500th by simp
  show "round_double (of_int 100 - of_int 40) = 60" using round_double_of_int[of 60] by simp
  show "round_double (60 / (4611686018427388 * 2 powi (- 61))) = 30000"
    using round_double_eqI[of 8246337208320000 "60 / (4611686018427388 * 2 powi (- 61))" "- 38"]
    by simp
qed

text \<open>
  The rounding shows in ordinary calls: one record of 100 after 61 seconds leaves
  \<open>6039000\<close> milliseconds in exact arithmetic, which is \<open>1h 40m 39s\<close>; the two rounded
  divisions give \<open>6038999.999999999\<close>, and the function returns \<open>1h 40m 38s\<close>.
\<close>

lemma etaMs_1: "etaMs 1 100 0 61000 = 6484326875135999 * 2 powi (- 30)"
proof (rule etaMs_eval)
  show "round_double (of_int 61000 - of_int 0) = 61000" using round_double_of_int[of 61000] by simp
  show "(61000 :: rat) \<noteq> 0" by simp
  show "round_double (of_int 1 / 61000) = 4838490248841850 * 2 powi (- 68)"
    using round_double_eqI[of 4838490248841850 "1 / 61000" "- 68"] by simp
  show "round_double (of_int 100 - of_int 1) = 99" using round_double_of_int[of 99] by simp
  show "round_double (99 / (4838490248841850 * 2 powi (- 68))) = 6484326875135999 * 2 powi (- 30)"
    using round_double_eqI[of 6484326875135999 "99 / (4838490248841850 * 2 powi (- 68))" "- 30"]
    by simp
qed

lemma eta_rounding_example:
  "calculateETA 1 100 0 61000 = ''1h 40m 38s'' \<and>
   etaMs 1 100 0 61000 < 6039000 \<and> 6039000 - 1 / 2 ^ 29 < etaMs 1 100 0 61000"
proof -
  let ?x = "6484326875135999 * (2::rat) powi (- 30)"
  have d: "is_double ?x"
    unfolding is_double_def using round_double_exact[of 6484326875135999 "- 30"] by simp
  have X: "\<lfloor>?x / 1000\<rfloor> = 6038" by (rule floor_unique) simp_all
  have "calculateETA_parts 1 100 0 61000 = eta_of_seconds \<lfloor>?x / 1000\<rfloor>"
    by (rule parts_of_double[OF _ etaMs_1 d]) simp_all
  then have "calculateETA_parts 1 100 0 61000 = HoursMinutesSeconds 1 40 38"
    unfolding X by (simp add: eta_of_seconds_def)
  then have "calculateETA 1 100 0 61000 = ''1h 40m 38s''"
    by (simp add: calculateETA_def toString_int_def toString_nat_small toString_nat_large
        digit_char_def char_of_eq_iff)
  moreover have "etaMs 1 100 0 61000 < 6039000" unfolding etaMs_1 by simp
  moreover have "6039000 - 1 / 2 ^ 29 < etaMs 1 100 0 61000" unfolding etaMs_1 by simp
  ultimately show ?thesis by blast
qed

text \<open>
  Where the estimate is too large for a double to hold its milliseconds, the fields no
  longer follow it: with a total near \<open>7.9 * 10^15\<close> and an estimate near \<open>1.8 * 10^22\<close>
  milliseconds, one more record at the same rate lowers the estimate and raises the
  display from \<open>20m 3s\<close> to \<open>45m 6s\<close> past the same number of hours.
\<close>

lemma etaMs_174: "etaMs 174 7866989602308094 0 402072240 = 8668291517939114 * 2 powi (21)"
proof (rule etaMs_eval)
  show "round_double (of_int 402072240 - of_int 0) = 402072240" using round_double_of_int[of 402072240] by simp
  show "(402072240 :: rat) \<noteq> 0" by simp
  show "round_double (of_int 174 / 402072240) = 8174568510567338 * 2 powi (- 74)"
    using round_double_eqI[of 8174568510567338 "of_int 174 / 402072240" "- 74"] by simp
  show "round_double (of_int 7866989602308094 - of_int 174) = 7866989602307920"
    using round_double_of_int[of 7866989602307920] by simp
  show "round_double (7866989602307920 / (8174568510567338 * 2 powi (- 74))) = 8668291517939114 * 2 powi (21)"
    using round_double_eqI[of 8668291517939114 "7866989602307920 / (8174568510567338 * 2 powi (- 74))" "21"] by simp
qed

lemma parts_174:
  "calculateETA_parts 174 7866989602308094 0 402072240 = HoursMinutesSeconds 5049645803730291 20 3"
proof -
  let ?ms = "8668291517939114 * 2 powi (21) :: rat"
  have ms: "?ms = 18178724893429048803328" by simp
  have h: "round_double (18178724893429048803328 / 3600000) = of_int 5049645803730291"
    using round_double_eqI[of 5049645803730291 "18178724893429048803328 / 3600000" 0] by simp
  have q1: "\<lfloor>18178724893429048803328 / 3600000 :: rat\<rfloor> = 5049645803730291" by (rule floor_unique) simp_all
  have r1: "js_rem 18178724893429048803328 3600000 = 1203328" unfolding js_rem_def q1 by simp
  have m: "round_double (1203328 / 60000) = 5645112012921338 * 2 powi (- 48)"
    using round_double_eqI[of 5645112012921338 "1203328 / 60000" "- 48"] by simp
  have mf: "\<lfloor>5645112012921338 * 2 powi (- 48) :: rat\<rfloor> = 20" by (rule floor_unique) simp_all
  have q2: "\<lfloor>18178724893429048803328 / 60000 :: rat\<rfloor> = 302978748223817480" by (rule floor_unique) simp_all
  have r2: "js_rem 18178724893429048803328 60000 = 3328" unfolding js_rem_def q2 by simp
  have s: "round_double (3328 / 1000) = 7493989779944505 * 2 powi (- 51)"
    using round_double_eqI[of 7493989779944505 "3328 / 1000" "- 51"] by simp
  have sf: "\<lfloor>7493989779944505 * 2 powi (- 51) :: rat\<rfloor> = 3" by (rule floor_unique) simp_all
  have c: "(1000 * 60 :: rat) = 60000" "(60000 * 60 :: rat) = 3600000" by simp_all
  show ?thesis
    unfolding calculateETA_parts_def Let_def etaMs_174 ms c h r1 m mf r2 s sf floor_of_int
    by simp
qed

lemma etaMs_175: "etaMs 175 7866989602308094 0 404383000 = 8668291517939113 * 2 powi (21)"
proof (rule etaMs_eval)
  show "round_double (of_int 404383000 - of_int 0) = 404383000" using round_double_of_int[of 404383000] by simp
  show "(404383000 :: rat) \<noteq> 0" by simp
  show "round_double (of_int 175 / 404383000) = 8174568510567338 * 2 powi (- 74)"
    using round_double_eqI[of 8174568510567338 "of_int 175 / 404383000" "- 74"] by simp
  show "round_double (of_int 7866989602308094 - of_int 175) = 7866989602307919"
    using round_double_of_int[of 7866989602307919] by simp
  show "round_double (7866989602307919 / (8174568510567338 * 2 powi (- 74))) = 8668291517939113 * 2 powi (21)"
    using round_double_eqI[of 8668291517939113 "7866989602307919 / (8174568510567338 * 2 powi (- 74))" "21"] by simp
qed

lemma parts_175:
  "calculateETA_parts 175 7866989602308094 0 404383000 = HoursMinutesSeconds 5049645803730291 45 6"
proof -
  let ?ms = "8668291517939113 * 2 powi (21) :: rat"
  have ms: "?ms = 18178724893429046706176" by simp
  have h: "round_double (18178724893429046706176 / 3600000) = of_int 5049645803730291"
    using round_double_eqI[of 5049645803730291 "18178724893429046706176 / 3600000" 0] by simp
  have q1: "\<lfloor>18178724893429046706176 / 3600000 :: rat\<rfloor> = 5049645803730290" by (rule floor_unique) simp_all
  have r1: "js_rem 18178724893429046706176 3600000 = 2706176" unfolding js_rem_def q1 by simp
  have m: "round_double (2706176 / 60000) = 6347673554791135 * 2 powi (- 47)"
    using round_double_eqI[of 6347673554791135 "2706176 / 60000" "- 47"] by simp
  have mf: "\<lfloor>6347673554791135 * 2 powi (- 47) :: rat\<rfloor> = 45" by (rule floor_unique) simp_all
  have q2: "\<lfloor>18178724893429046706176 / 60000 :: rat\<rfloor> = 302978748223817445" by (rule floor_unique) simp_all
  have r2: "js_rem 18178724893429046706176 60000 = 6176" unfolding js_rem_def q2 by simp
  have s: "round_double (6176 / 1000) = 6953557824660046 * 2 powi (- 50)"
    using round_double_eqI[of 6953557824660046 "6176 / 1000" "- 50"] by simp
  have sf: "\<lfloor>6953557824660046 * 2 powi (- 50) :: rat\<rfloor> = 6" by (rule floor_unique) simp_all
  have c: "(1000 * 60 :: rat) = 60000" "(60000 * 60 :: rat) = 3600000" by simp_all
  show ?thesis
    unfolding calculateETA_parts_def Let_def etaMs_175 ms c h r1 m mf r2 s sf floor_of_int
    by simp
qed

lemma eta_display_can_rise:
  "etaMs 175 7866989602308094 0 404383000 < etaMs 174 7866989602308094 0 402072240 \<and>
   displayed_seconds (calculateETA_parts 174 7866989602308094 0 402072240) <
   displayed_seconds (calculateETA_parts 175 7866989602308094 0 404383000) \<and>
   (174 :: int) * 404383000 = 175 * 402072240"
  unfolding etaMs_174 etaMs_175 parts_174 parts_175 by simp

text \<open>
  C8, as stated, fails when more records are processed than the total: at one record per
  second and a total of 10, the estimate displayed after 69 records is \<open>-59s\<close> and after
  71 records \<open>-1s\<close>, which is larger. (The hours and minutes, negative as well, are not
  displayed.)
\<close>

theorem overshoot_counterexample:
  "calculateETA 69 10 0 69000 = ''-59s'' \<and> calculateETA 71 10 0 71000 = ''-1s'' \<and>
   displayed_seconds (calculateETA_parts 69 10 0 69000) = - 59 \<and>
   displayed_seconds (calculateETA_parts 71 10 0 71000) = - 1 \<and>
   (69 :: int) * (71000 - 0) = 71 * (69000 - 0)"
  by (simp add: calculateETA_def parts_69 parts_71
      toString_int_def toString_nat_small toString_nat_large digit_char_def char_of_eq_iff)

text \<open>
  C8 (amended). \<^verbatim>\<open>calculateETA\<close> returns \<open>Calculating...\<close> if and only if \<open>processed\<close>
  is 0. For two readings \<open>0 < p1 \<le> p2 \<le> total \<le> 2^52\<close> taken at the same rate (\<open>p1\<close>
  records in \<open>e1\<close> milliseconds, \<open>p2\<close> in \<open>e2\<close>, with \<open>p1 * e2 = p2 * e1\<close> and
  \<open>0 < e1, e2 < 2^53\<close>) and an estimate at \<open>p1\<close> of at most \<open>2^52\<close> milliseconds
  (\<open>(total - p1) * e1 \<le> 2^52 * p1\<close>), the estimate in milliseconds at \<open>p2\<close> is at most
  that at \<open>p1\<close>, and smaller when \<open>p1 < p2\<close>; the time displayed, which is in whole
  seconds, is at most the one displayed at \<open>p1\<close>.
\<close>

theorem eta_decreases:
  "(calculateETA processed t s now = ''Calculating...'' \<longleftrightarrow> processed = 0) \<and>
   (0 < p1 \<and> p1 \<le> p2 \<and> p2 \<le> t \<and> t \<le> 2 ^ 52 \<and>
    0 < e1 \<and> e1 < 2 ^ 53 \<and> 0 < e2 \<and> e2 < 2 ^ 53 \<and>
    p1 * e2 = p2 * e1 \<and> (t - p1) * e1 \<le> 2 ^ 52 * p1 \<longrightarrow>
      etaMs p2 t s (s + e2) \<le> etaMs p1 t s (s + e1) \<and>
      (p1 < p2 \<longrightarrow> etaMs p2 t s (s + e2) < etaMs p1 t s (s + e1)) \<and>
      displayed_seconds (calculateETA_parts p2 t s (s + e2)) \<le>
        displayed_seconds (calculateETA_parts p1 t s (s + e1)))"
proof -
  have calc: "calculateETA processed t s now = ''Calculating...'' \<longleftrightarrow> processed = 0"
  proof
    assume c: "calculateETA processed t s now = ''Calculating...''"
    show "processed = 0"
    proof (rule ccontr)
      assume "processed \<noteq> 0"
      then have "calculateETA_parts processed t s now \<noteq> Calculating"
        by (simp add: calculateETA_parts_Calculating)
      from render_eta_last[OF this] c show False by (simp add: calculateETA_def)
    qed
  next
    assume "processed = 0"
    then show "calculateETA processed t s now = ''Calculating...''"
      by (simp add: calculateETA_def calculateETA_parts_def)
  qed
  have mono: "etaMs p2 t s (s + e2) \<le> etaMs p1 t s (s + e1) \<and>
      (p1 < p2 \<longrightarrow> etaMs p2 t s (s + e2) < etaMs p1 t s (s + e1)) \<and>
      displayed_seconds (calculateETA_parts p2 t s (s + e2)) \<le>
        displayed_seconds (calculateETA_parts p1 t s (s + e1))"
    if h: "0 < p1 \<and> p1 \<le> p2 \<and> p2 \<le> t \<and> t \<le> 2 ^ 52 \<and>
      0 < e1 \<and> e1 < 2 ^ 53 \<and> 0 < e2 \<and> e2 < 2 ^ 53 \<and>
      p1 * e2 = p2 * e1 \<and> (t - p1) * e1 \<le> 2 ^ 52 * p1"
  proof -
    from h have p: "0 < p1" "p1 \<le> p2" "p2 \<le> t" and t: "t \<le> 2 ^ 52"
      and e: "0 < e1" "e1 < 2 ^ 53" "0 < e2" "e2 < 2 ^ 53"
      and rate: "p1 * e2 = p2 * e1" and est: "(t - p1) * e1 \<le> 2 ^ 52 * p1"
      by simp_all
    note m = eta_monotone[OF p t e rate est, of s]
    let ?x1 = "etaMs p1 t s (s + e1)" and ?x2 = "etaMs p2 t s (s + e2)"
    have x10: "0 \<le> ?x1" using m(1,3) by simp
    have x2b: "?x2 \<le> 2 ^ 52 + 2" using m(1,4) by simp
    have p1: "p1 \<noteq> 0" and p2: "p2 \<noteq> 0" using p by simp_all
    have d1: "displayed_seconds (calculateETA_parts p1 t s (s + e1)) = \<lfloor>?x1 / 1000\<rfloor>"
      using parts_of_double[OF p1 refl m(5) x10 m(4)] x10
      by (simp add: displayed_seconds_eta_of_seconds)
    have d2: "displayed_seconds (calculateETA_parts p2 t s (s + e2)) = \<lfloor>?x2 / 1000\<rfloor>"
      using parts_of_double[OF p2 refl m(6) m(3) x2b] m(3)
      by (simp add: displayed_seconds_eta_of_seconds)
    have "\<lfloor>?x2 / 1000\<rfloor> \<le> \<lfloor>?x1 / 1000\<rfloor>"
      using m(1) by (intro floor_mono) simp
    with m(1) m(2) d1 d2 show ?thesis by simp
  qed
  from calc mono show ?thesis by blast
qed

text \<open>
  An instance of C8: 100 records at one record per half second; after 10 records the
  display is \<open>45s\<close>, after 40 records \<open>30s\<close>.
\<close>

theorem eta_decreases_witness:
  "calculateETA 0 100 0 5000 = ''Calculating...'' \<and>
   calculateETA 10 100 0 5000 \<noteq> ''Calculating...'' \<and>
   (0::int) < 10 \<and> (10::int) \<le> 40 \<and> (40::int) \<le> 100 \<and> (100::int) \<le> 2 ^ 52 \<and>
   (0::int) < 5000 \<and> (5000::int) < 2 ^ 53 \<and> (0::int) < 20000 \<and> (20000::int) < 2 ^ 53 \<and>
   (10::int) * 20000 = 40 * 5000 \<and> ((100::int) - 10) * 5000 \<le> 2 ^ 52 * 10 \<and>
   etaMs 40 100 0 (0 + 20000) < etaMs 10 100 0 (0 + 5000) \<and>
   displayed_seconds (calculateETA_parts 40 100 0 (0 + 20000)) \<le>
     displayed_seconds (calculateETA_parts 10 100 0 (0 + 5000)) \<and>
   calculateETA 10 100 0 5000 = ''45s'' \<and> calculateETA 40 100 0 20000 = ''30s''"
proof -
  have h: "(0::int) < 10 \<and> (10::int) \<le> 40 \<and> (40::int) \<le> 100 \<and> (100::int) \<le> 2 ^ 52 \<and>
      (0::int) < 5000 \<and> (5000::int) < 2 ^ 53 \<and> (0::int) < 20000 \<and> (20000::int) < 2 ^ 53 \<and>
      (10::int) * 20000 = 40 * 5000 \<and> ((100::int) - 10) * 5000 \<le> 2 ^ 52 * 10"
    by simp
  have d: "is_double 45000" "is_double 30000"
    using is_double_of_int[of 45000] is_double_of_int[of 30000] by simp_all
  have "calculateETA_parts 10 100 0 (0 + 5000) = eta_of_seconds \<lfloor>45000 / 1000 :: rat\<rfloor>"
    by (rule parts_of_double[OF _ etaMs_10 d(1)]) simp_all
  then have q1: "calculateETA_parts 10 100 0 5000 = Seconds 45"
    by (simp add: eta_of_seconds_def)
  have "calculateETA_parts 40 100 0 (0 + 20000) = eta_of_seconds \<lfloor>30000 / 1000 :: rat\<rfloor>"
    by (rule parts_of_double[OF _ etaMs_40 d(2)]) simp_all
  then have q2: "calculateETA_parts 40 100 0 20000 = Seconds 30"
    by (simp add: eta_of_seconds_def)
  have v: "calculateETA 10 100 0 5000 = ''45s''" "calculateETA 40 100 0 20000 = ''30s''"
    by (simp_all add: calculateETA_def q1 q2 toString_int_def toString_nat_small
        toString_nat_large digit_char_def char_of_eq_iff)
  note a = eta_decreases[of 0 100 0 5000 10 40 5000 20000]
  note b = eta_decreases[of 10 100 0 5000 10 40 5000 20000]
  have "calculateETA 0 100 0 5000 = ''Calculating...''" using a by simp
  moreover have "calculateETA 10 100 0 5000 \<noteq> ''Calculating...''" using b by simp
  moreover have "etaMs 40 100 0 (0 + 20000) < etaMs 10 100 0 (0 + 5000) \<and>
      displayed_seconds (calculateETA_parts 40 100 0 (0 + 20000)) \<le>
        displayed_seconds (calculateETA_parts 10 100 0 (0 + 5000))"
    using b h by simp
  ultimately show ?thesis using h v by simp
qed


section \<open>C9: the percentage\<close>


















end
